theory Spec2Isabelle
  imports Complex_Main "HOL-Library.Word" "HOL-Library.Monad_Syntax" "HOL-Library.Multiset"
begin

chapter \<open>Definitions\<close>

section \<open>Arithmetic of the C types\<close>

text \<open>
  An \<^verbatim>\<open>int\<close> has 32 bits. An addition of \<^verbatim>\<open>int\<close>s whose result leaves the range of
  the type is undefined behaviour in C; \<open>int_add\<close> yields \<open>None\<close> for it.
\<close>

definition INT_MAX :: int where
  "INT_MAX = 2147483647"

definition INT_MIN :: int where
  "INT_MIN = - 2147483648"

definition int_add :: "int \<Rightarrow> int \<Rightarrow> int option" where
  "int_add a b = (if INT_MIN \<le> a + b \<and> a + b \<le> INT_MAX then Some (a + b) else None)"

definition int_sub :: "int \<Rightarrow> int \<Rightarrow> int option" where
  "int_sub a b = (if INT_MIN \<le> a - b \<and> a - b \<le> INT_MAX then Some (a - b) else None)"

text \<open>
  A \<^verbatim>\<open>float\<close> is a number of the IEEE 754 binary32 format, with a significand of 24
  bits. An arithmetic operation on \<^verbatim>\<open>float\<close>s, and the conversion of an integer to
  \<^verbatim>\<open>float\<close>, yields the exact result rounded to the nearest number of the format, a tie
  going to the even significand; an expression of type \<^verbatim>\<open>float\<close> is evaluated in that
  format (\<^verbatim>\<open>FLT_EVAL_METHOD\<close> 0, as on the 64-bit Linux targets of the daemon).

  \<open>rne\<close> rounds a real number to the nearest integer, a tie to the even one.
  \<open>float_exp x\<close> is the exponent \<open>e\<close> with \<open>2 ^ e \<le> |x| < 2 ^ (e + 1)\<close>, and
  \<open>float_ulp e\<close> the distance \<open>2 ^ (e - 23)\<close> of the numbers of the format with that
  exponent. \<open>float_round\<close> is the rounding for an exponent without bounds. The bounds of
  the exponent make no difference where the model rounds: the sum of a finite \<^verbatim>\<open>float\<close>
  and a 16-bit integer is too small to overflow, a sum of two \<^verbatim>\<open>float\<close>s that is
  subnormal is exact, and a sum that overflows to an infinity compares with a finite
  \<^verbatim>\<open>float\<close> as the value does that \<open>float_round\<close> gives.
\<close>

definition rne :: "real \<Rightarrow> int" where
  "rne x =
     (let f = \<lfloor>x\<rfloor>
      in if x - of_int f < 1 / 2 then f
         else if x - of_int f > 1 / 2 then f + 1
         else if even f then f else f + 1)"

definition float_exp :: "real \<Rightarrow> int" where
  "float_exp x = \<lfloor>log 2 \<bar>x\<bar>\<rfloor>"

definition float_ulp :: "int \<Rightarrow> real" where
  "float_ulp e = 2 powr (of_int e - 23)"

definition float_round :: "real \<Rightarrow> real" where
  "float_round x =
     (if x = 0 then 0
      else of_int (rne (x / float_ulp (float_exp x))) * float_ulp (float_exp x))"

definition float_add :: "real \<Rightarrow> real \<Rightarrow> real" where
  "float_add a b = float_round (a + b)"

definition float_of_int :: "int \<Rightarrow> real" where
  "float_of_int i = float_round (of_int i)"

section \<open>common/mathutils.h\<close>

text \<open>
  \<^verbatim>\<open>add32sat\<close> and \<^verbatim>\<open>add16sat\<close>: the sum is computed in the unsigned type (it wraps
  modulo \<open>2 ^ 32\<close>, resp. \<open>2 ^ 16\<close>) and replaced by the largest value when it came out
  smaller than the first operand.
\<close>

definition add32sat :: "32 word \<Rightarrow> 32 word \<Rightarrow> 32 word" where
  "add32sat a b = (let sum = a + b in if sum < a then 0xFFFFFFFF else sum)"

definition add16sat :: "16 word \<Rightarrow> 16 word \<Rightarrow> 16 word" where
  "add16sat a b = (let sum = a + b in if sum < a then 0xFFFF else sum)"

section \<open>app_wsrd/supplicant/supplicant_storage.c\<close>

definition FRAME_COUNTER_OFFSET :: "32 word" where
  "FRAME_COUNTER_OFFSET = 200000"

text \<open>
  \<^verbatim>\<open>fnmatch(pattern, string, 0)\<close> for the patterns this file uses: a backslash quotes
  the next character, \<^verbatim>\<open>*\<close> matches any run of characters (with flags 0 also
  slashes and a leading period), every other character stands for itself. The patterns of
  \<^verbatim>\<open>supp_storage_load\<close> have no \<^verbatim>\<open>?\<close> and no unquoted \<^verbatim>\<open>[\<close>. The C function
  returns 0 on a match; the model returns \<open>True\<close>.
\<close>

fun fnmatch :: "string \<Rightarrow> string \<Rightarrow> bool" where
  "fnmatch [] s = (s = [])"
| "fnmatch (p # ps) [] = (p = CHR ''*'' \<and> fnmatch ps [])"
| "fnmatch (p # ps) (c # s) =
     (if p = CHR ''*'' then fnmatch ps (c # s) \<or> fnmatch (p # ps) s
      else if p = CHR 0x5C then
        (case ps of [] \<Rightarrow> False | q # qs \<Rightarrow> q = c \<and> fnmatch qs s)
      else p = c \<and> fnmatch ps s)"

text \<open>
  The patterns that quote a bracket, as the C string literals \<^verbatim>\<open>"gtk\\[*]"\<close> and
  \<^verbatim>\<open>"lgtk\\[*]"\<close> denote them: one backslash before the bracket.
\<close>

definition pat_gtk :: string where
  "pat_gtk = ''gtk'' @ CHR 0x5C # ''[*]''"

definition pat_lgtk :: string where
  "pat_lgtk = ''lgtk'' @ CHR 0x5C # ''[*]''"

type_synonym eui64 = "8 word list"

datatype storage_error =
    FATAL int string
  | OUT_OF_BOUNDS

text \<open>
  One call of \<^verbatim>\<open>storage_parse_line\<close> that did not hit the end of the file: its return
  value and the fields of \<^verbatim>\<open>struct storage_parse_info\<close> that the loader reads.
\<close>

record storage_parse_info =
  ret :: int
  key :: string
  key_array_index :: "32 word"
  val :: string

text \<open>
  The parsers of the C library and of \<^verbatim>\<open>common/parsers.h\<close> are not part of the
  sources at hand and are taken as parameters, with the constant \<^verbatim>\<open>WS_GTK_COUNT\<close>:
  \<^verbatim>\<open>parse_byte_array(out, size, str)\<close> yields the \<open>size\<close> bytes or fails,
  \<^verbatim>\<open>strtoul\<close>, \<^verbatim>\<open>strtoull\<close> and \<^verbatim>\<open>strtoll\<close> yield 64-bit values.
\<close>

record storage_env =
  parse_byte_array :: "nat \<Rightarrow> string \<Rightarrow> 8 word list option"
  strtoul :: "string \<Rightarrow> 64 word"
  strtoull :: "string \<Rightarrow> 64 word"
  strtoll :: "string \<Rightarrow> 64 word"
  time_now_s :: "64 word"
  WS_GTK_COUNT :: "32 word"

record ws_gtk =
  gtk_key :: "8 word list"
  frame_counter :: "32 word"

record supp_ctx =
  cfg_eui64 :: eui64
  pmk_key :: "8 word list"
  pmk_installation_s :: "64 word"
  pmk_replay_counter :: "64 word"
  ptk_key :: "8 word list"
  ptk_installation_s :: "64 word"
  gtks :: "ws_gtk list"

text \<open>
  The state of the parsing loop: the supplicant context and the local array
  \<^verbatim>\<open>gtks_expiration_ts_ms\<close>. An index outside an array is undefined behaviour in C and
  the value \<open>OUT_OF_BOUNDS\<close> here.
\<close>

type_synonym load_state = "supp_ctx \<times> 64 word list"

definition array_set :: "'a list \<Rightarrow> 32 word \<Rightarrow> ('a \<Rightarrow> 'a) \<Rightarrow> storage_error + 'a list" where
  "array_set xs i f =
     (if unat i < length xs then Inr (xs[unat i := f (xs ! unat i)]) else Inl OUT_OF_BOUNDS)"

definition load_gtk_key ::
  "storage_env \<Rightarrow> load_state \<Rightarrow> 32 word \<Rightarrow> string \<Rightarrow> storage_error + load_state" where
  "load_gtk_key E st i v =
     (let supp = fst st in
      if unat i < length (gtks supp) then
        (case parse_byte_array E (length (gtk_key (gtks supp ! unat i))) v of
           None \<Rightarrow> Inl (FATAL 1 ''invalid key'')
         | Some k \<Rightarrow>
             Inr (supp\<lparr>gtks := (gtks supp)[unat i := (gtks supp ! unat i)\<lparr>gtk_key := k\<rparr>]\<rparr>, snd st))
      else Inl OUT_OF_BOUNDS)"

definition load_gtk_expiration ::
  "storage_env \<Rightarrow> load_state \<Rightarrow> 32 word \<Rightarrow> string \<Rightarrow> storage_error + load_state" where
  "load_gtk_expiration E st i v =
     (case array_set (snd st) i (\<lambda>_. strtoull E v) of
        Inl e \<Rightarrow> Inl e
      | Inr ts \<Rightarrow> Inr (fst st, ts))"

definition load_gtk_frame_counter ::
  "storage_env \<Rightarrow> load_state \<Rightarrow> 32 word \<Rightarrow> string \<Rightarrow> storage_error + load_state" where
  "load_gtk_frame_counter E st i v =
     (case array_set (gtks (fst st)) i
             (\<lambda>g. g\<lparr>frame_counter := add32sat (ucast (strtoul E v)) FRAME_COUNTER_OFFSET\<rparr>) of
        Inl e \<Rightarrow> Inl e
      | Inr gs \<Rightarrow> Inr ((fst st)\<lparr>gtks := gs\<rparr>, snd st))"

text \<open>The body of the \<^verbatim>\<open>while (true)\<close> loop of \<^verbatim>\<open>supp_storage_load\<close>, for one line.\<close>

definition supp_storage_load_line ::
  "storage_env \<Rightarrow> load_state \<Rightarrow> storage_parse_info \<Rightarrow> storage_error + load_state" where
  "supp_storage_load_line E st info =
     (let supp = fst st in
      if ret info \<noteq> 0 then Inr st
      else if fnmatch ''eui64'' (key info) then
        (case parse_byte_array E 8 (val info) of
           None \<Rightarrow> Inl (FATAL 1 ''invalid eui64'')
         | Some e \<Rightarrow>
             if e \<noteq> cfg_eui64 supp
             then Inl (FATAL 1 ''eui64 mismatch between current and previous state loaded from storage'')
             else Inr st)
      else if fnmatch ''pmk'' (key info) then
        (case parse_byte_array E (length (pmk_key supp)) (val info) of
           None \<Rightarrow> Inl (FATAL 1 ''invalid pmk'')
         | Some k \<Rightarrow> Inr (supp\<lparr>pmk_key := k, pmk_installation_s := time_now_s E\<rparr>, snd st))
      else if fnmatch ''pmk.replay_counter'' (key info) then
        Inr (supp\<lparr>pmk_replay_counter := strtoll E (val info)\<rparr>, snd st)
      else if fnmatch ''ptk'' (key info) then
        (case parse_byte_array E (length (ptk_key supp)) (val info) of
           None \<Rightarrow> Inl (FATAL 1 ''invalid ptk'')
         | Some k \<Rightarrow> Inr (supp\<lparr>ptk_key := k, ptk_installation_s := time_now_s E\<rparr>, snd st))
      else if fnmatch pat_gtk (key info) then
        load_gtk_key E st (key_array_index info) (val info)
      else if fnmatch (pat_gtk @ ''.expiration_timestamp_ms'') (key info) then
        load_gtk_expiration E st (key_array_index info) (val info)
      else if fnmatch (pat_gtk @ ''.frame_counter'') (key info) then
        load_gtk_frame_counter E st (key_array_index info) (val info)
      else if fnmatch pat_lgtk (key info) then
        load_gtk_key E st (key_array_index info + WS_GTK_COUNT E) (val info)
      else if fnmatch (pat_lgtk @ ''.expiration_timestamp_ms'') (key info) then
        load_gtk_expiration E st (key_array_index info + WS_GTK_COUNT E) (val info)
      else if fnmatch (pat_lgtk @ ''.frame_counter'') (key info) then
        load_gtk_frame_counter E st (key_array_index info + WS_GTK_COUNT E) (val info)
      else Inr st)"

text \<open>
  The loop over the lines of the file up to \<^verbatim>\<open>EOF\<close>. A \<^verbatim>\<open>FATAL\<close> ends the process,
  so the remaining lines are not read.
\<close>

fun supp_storage_load_lines ::
  "storage_env \<Rightarrow> load_state \<Rightarrow> storage_parse_info list \<Rightarrow> storage_error + load_state" where
  "supp_storage_load_lines E st [] = Inr st"
| "supp_storage_load_lines E st (info # infos) =
     (case supp_storage_load_line E st info of
        Inl e \<Rightarrow> Inl e
      | Inr st' \<Rightarrow> supp_storage_load_lines E st' infos)"

section \<open>common/ipv6/6lowpan_frag.c\<close>

text \<open>
  A hole is the pair \<^verbatim>\<open>first\<close>, \<^verbatim>\<open>end\<close> of \<^verbatim>\<open>struct lowpan_hole\<close>: the bytes
  \<open>first \<le> i < end\<close> are missing. Both are \<^verbatim>\<open>uint16_t\<close>; the model keeps their
  values as natural numbers and writes the truncation out where the C code stores into one.
  The singly linked list of holes is a list, head first.
\<close>

record lowpan_hole =
  hole_first :: nat
  hole_end :: nat

text \<open>
  \<^verbatim>\<open>struct lowpan_reasm\<close> without its list link and its expiry timer, which
  \<^verbatim>\<open>lowpan_reasm_update\<close> does not touch.
\<close>

record lowpan_reasm =
  src :: eui64
  dst :: eui64
  len :: nat
  tag :: "16 word"
  holes :: "lowpan_hole list"
  buf :: "8 word list"

text \<open>
  What the C standard leaves undefined and the loop of \<^verbatim>\<open>lowpan_reasm_update\<close> can
  reach: a store through a pointer to a hole that was freed, and a \<^verbatim>\<open>memcpy\<close> past
  the end of the reassembly buffer.
\<close>

datatype undefined_behaviour = USE_AFTER_FREE | BUFFER_OVERFLOW

definition EINVAL :: int where
  "EINVAL = 22"


text \<open>
  The \<^verbatim>\<open>for\<close> loop of \<^verbatim>\<open>lowpan_reasm_update\<close> over the holes that were in the
  list when the loop started (\<^verbatim>\<open>next\<close> is read before the body runs, and new holes go
  to the head, behind the cursor). The result is the pair of the holes inserted at the head,
  latest first, and the old holes that stay, in their order; the list after the loop is the
  first followed by the second.

  The flag \<open>freed\<close> says that \<^verbatim>\<open>prev\<close> points to a hole that the previous iteration
  removed and freed: the loop's step \<^verbatim>\<open>prev = hole\<close> runs after \<^verbatim>\<open>free(hole)\<close> too.
  Removing the next hole as well then executes \<^verbatim>\<open>SLIST_NEXT(prev, link) = next\<close> on
  freed memory, and leaves the removed hole linked in the list.
\<close>

fun lowpan_reasm_update_loop ::
  "nat \<Rightarrow> nat \<Rightarrow> bool \<Rightarrow> lowpan_hole list \<Rightarrow>
   undefined_behaviour + (lowpan_hole list \<times> lowpan_hole list)" where
  "lowpan_reasm_update_loop frag_first frag_end freed [] = Inr ([], [])"
| "lowpan_reasm_update_loop frag_first frag_end freed (hole # rest) =
     (if frag_first \<ge> hole_end hole \<or> frag_end \<le> hole_first hole then
        (case lowpan_reasm_update_loop frag_first frag_end False rest of
           Inl ub \<Rightarrow> Inl ub
         | Inr (added, kept) \<Rightarrow> Inr (added, hole # kept))
      else if freed then Inl USE_AFTER_FREE
      else
        (case lowpan_reasm_update_loop frag_first frag_end True rest of
           Inl ub \<Rightarrow> Inl ub
         | Inr (added, kept) \<Rightarrow>
             Inr (added
                  @ (if frag_end < hole_end hole
                     then [\<lparr>hole_first = frag_end, hole_end = hole_end hole\<rparr>] else [])
                  @ (if frag_first > hole_first hole
                     then [\<lparr>hole_first = hole_first hole, hole_end = frag_first\<rparr>] else []),
                  kept)))"

text \<open>
  \<^verbatim>\<open>lowpan_reasm_update(reasm, buf, buf_len, offset)\<close>. The fragment is the byte list
  \<open>frag\<close>, its length is \<^verbatim>\<open>buf_len\<close>; \<^verbatim>\<open>offset\<close> is a \<^verbatim>\<open>uint8_t\<close>.
  \<^verbatim>\<open>frag_end\<close> is a \<^verbatim>\<open>uint16_t\<close>: the sum is reduced modulo \<open>2 ^ 16\<close> when it is
  stored. The result is the returned \<^verbatim>\<open>int\<close> with the context as the call leaves it.
\<close>

definition lowpan_reasm_update ::
  "lowpan_reasm \<Rightarrow> 8 word list \<Rightarrow> 8 word \<Rightarrow> undefined_behaviour + (int \<times> lowpan_reasm)" where
  "lowpan_reasm_update reasm frag offset =
     (let frag_first = unat offset * 8;
          frag_end = (frag_first + length frag) mod 65536
      in if frag_end > len reasm then Inr (- EINVAL, reasm)
         else if frag_end \<noteq> len reasm \<and> length frag mod 8 \<noteq> 0 then Inr (- EINVAL, reasm)
         else
           (case lowpan_reasm_update_loop frag_first frag_end False (holes reasm) of
              Inl ub \<Rightarrow> Inl ub
            | Inr (added, kept) \<Rightarrow>
                if frag_first + length frag > length (buf reasm) then Inl BUFFER_OVERFLOW
                else Inr (0, reasm\<lparr>holes := added @ kept,
                                   buf := take frag_first (buf reasm) @ frag
                                          @ drop (frag_first + length frag) (buf reasm)\<rparr>)))"

text \<open>
  \<^verbatim>\<open>lowpan_reasm_new\<close>: a zeroed buffer of \<^verbatim>\<open>len\<close> bytes (\<^verbatim>\<open>zalloc\<close>) and the one
  hole from 0 to \<^verbatim>\<open>len\<close>. The insertion into the context's list of reassemblies and the
  start of the expiry timer are left out.
\<close>

definition lowpan_reasm_new :: "eui64 \<Rightarrow> eui64 \<Rightarrow> 16 word \<Rightarrow> 16 word \<Rightarrow> lowpan_reasm" where
  "lowpan_reasm_new s d t l =
     \<lparr>src = s, dst = d, len = unat l, tag = t,
      holes = [\<lparr>hole_first = 0, hole_end = unat l\<rparr>],
      buf = replicate (unat l) 0\<rparr>"



text \<open>
  Feeding a list of fragments, each an offset in units of 8 bytes with its payload, to one
  context, as successive calls of \<^verbatim>\<open>lowpan_reasm_update\<close> do; the feeding stops at the
  first fragment that is refused.
\<close>

fun lowpan_reasm_feed ::
  "lowpan_reasm \<Rightarrow> (8 word \<times> 8 word list) list \<Rightarrow> undefined_behaviour + (int \<times> lowpan_reasm)" where
  "lowpan_reasm_feed reasm [] = Inr (0, reasm)"
| "lowpan_reasm_feed reasm ((offset, frag) # frags) =
     (case lowpan_reasm_update reasm frag offset of
        Inl ub \<Rightarrow> Inl ub
      | Inr (r, reasm') \<Rightarrow>
          if r < 0 then Inr (r, reasm') else lowpan_reasm_feed reasm' frags)"

text \<open>
  Splitting a datagram: the chunk sizes \<open>ns\<close> cut \<open>data\<close> from position \<open>pos\<close> on
  into consecutive fragments; a fragment that starts at byte \<open>p\<close> carries the offset
  \<open>p div 8\<close> in its 8-bit field. A splitting is valid when every chunk but the last is a
  multiple of 8 bytes long, and the chunks add up to the datagram.
\<close>

fun chunks :: "nat \<Rightarrow> nat list \<Rightarrow> (nat \<times> nat) list" where
  "chunks pos [] = []"
| "chunks pos (n # ns) = (pos, n) # chunks (pos + n) ns"

definition fragment_of :: "8 word list \<Rightarrow> nat \<times> nat \<Rightarrow> 8 word \<times> 8 word list" where
  "fragment_of data c = (word_of_nat (fst c div 8), take (snd c) (drop (fst c) data))"

fun valid_sizes :: "nat list \<Rightarrow> bool" where
  "valid_sizes [] = True"
| "valid_sizes [n] = True"
| "valid_sizes (n # ns) = (n mod 8 = 0 \<and> valid_sizes ns)"

text \<open>The bytes that the holes of a list cover.\<close>

definition hole_range :: "lowpan_hole \<Rightarrow> nat set" where
  "hole_range h = {hole_first h ..< hole_end h}"

definition holes_range :: "lowpan_hole list \<Rightarrow> nat set" where
  "holes_range hs = \<Union> (hole_range ` set hs)"

text \<open>
  The invariant of a reassembly context: the buffer has \<^verbatim>\<open>len\<close> bytes, \<^verbatim>\<open>len\<close> fits
  its 16 bits, the holes lie within the datagram, and no two holes of the list overlap.
\<close>

definition holes_disjoint :: "lowpan_hole list \<Rightarrow> bool" where
  "holes_disjoint hs = sorted_wrt (\<lambda>a b. hole_range a \<inter> hole_range b = {}) hs"

definition reasm_inv :: "lowpan_reasm \<Rightarrow> bool" where
  "reasm_inv reasm =
     (length (buf reasm) = len reasm \<and> len reasm < 65536 \<and>
      (\<forall>h \<in> set (holes reasm). hole_end h \<le> len reasm) \<and>
      holes_disjoint (holes reasm))"

section \<open>common/ws/ws_ewma.h and common/ws/ws_etx.c\<close>

text \<open>
  A \<^verbatim>\<open>float\<close> is modelled as a real number or NaN: \<open>None\<close> is NaN, and arithmetic on
  the numbers is exact (the rounding of the 32-bit format is not modelled in this module).
  The counters are \<^verbatim>\<open>int\<close>s.
\<close>

definition ws_ewma_next :: "real option \<Rightarrow> real \<Rightarrow> real \<Rightarrow> real" where
  "ws_ewma_next cur v smoothing_factor =
     (case cur of None \<Rightarrow> v | Some c \<Rightarrow> smoothing_factor * (v - c) + c)"

text \<open>
  Modelled from the spec: the timer facility (\<^verbatim>\<open>common/timer.h\<close>) is not part of the
  sources. A timer is stopped (\<open>None\<close>) or running with the delay it was started with;
  \<^verbatim>\<open>timer_start_rel\<close> sets it running, \<^verbatim>\<open>timer_stop\<close> stops it, \<^verbatim>\<open>timer_stopped\<close>
  tests it, and a timer that fires is stopped when its callback runs.
\<close>

type_synonym timer_entry = "nat option"

definition timer_stopped :: "timer_entry \<Rightarrow> bool" where
  "timer_stopped t = (t = None)"

record ws_etx =
  etx :: "real option"
  tx_cnt :: int
  ack_cnt :: int
  tx_req_cnt :: int
  compute_cnt :: int
  timer_compute :: timer_entry
  timer_outdated :: timer_entry

text \<open>
  \<^verbatim>\<open>struct ws_etx_ctx\<close>: of each callback pointer the model keeps whether it is set; a
  call of a callback is recorded in the list that the handlers return.
\<close>

record ws_etx_ctx =
  on_etx_outdated :: bool
  on_etx_update :: bool
  update_min_tx_req_cnt :: int
  update_min_delay_ms :: nat
  refresh_period_ms :: nat

datatype etx_callback = ON_ETX_OUTDATED | ON_ETX_UPDATE

text \<open>
  Modelled from the spec: \<^verbatim>\<open>WS_ETX_MAX\<close> is defined in a header that is not part of the
  sources; the spec gives the maximum of the raw value as 1024.
\<close>

definition WS_ETX_MAX :: real where
  "WS_ETX_MAX = 1024"

definition ws_etx_timeout_compute :: "ws_etx_ctx \<Rightarrow> ws_etx \<Rightarrow> ws_etx \<times> etx_callback list" where
  "ws_etx_timeout_compute ctx e =
     (if \<not> (tx_req_cnt e \<ge> update_min_tx_req_cnt ctx \<or> etx e = None) then
        (e, if timer_stopped (timer_outdated e) \<and> on_etx_outdated ctx
            then [ON_ETX_OUTDATED] else [])
      else
        (let raw = (if ack_cnt e \<noteq> 0
                    then min (real_of_int (tx_cnt e) / real_of_int (ack_cnt e) * 128) WS_ETX_MAX
                    else WS_ETX_MAX);
             cnt = (if compute_cnt e < 8 then compute_cnt e + 1 else compute_cnt e);
             new = ws_ewma_next (etx e) raw (1 / real_of_int cnt)
         in (e\<lparr>etx := Some new, tx_cnt := 0, ack_cnt := 0, tx_req_cnt := 0,
               compute_cnt := cnt,
               timer_compute := Some (update_min_delay_ms ctx),
               timer_outdated := Some (refresh_period_ms ctx)\<rparr>,
             if on_etx_update ctx then [ON_ETX_UPDATE] else [])))"

definition ws_etx_timeout_outdated :: "ws_etx_ctx \<Rightarrow> ws_etx \<Rightarrow> ws_etx \<times> etx_callback list" where
  "ws_etx_timeout_outdated ctx e = (e, if on_etx_outdated ctx then [ON_ETX_OUTDATED] else [])"

definition ws_etx_init :: "ws_etx \<Rightarrow> ws_etx" where
  "ws_etx_init e = e\<lparr>etx := None, tx_cnt := 0, ack_cnt := 0, tx_req_cnt := 0, compute_cnt := 0\<rparr>"

definition ws_etx_reset :: "ws_etx_ctx \<Rightarrow> ws_etx \<Rightarrow> ws_etx" where
  "ws_etx_reset ctx e = ws_etx_init (e\<lparr>timer_compute := None, timer_outdated := None\<rparr>)"

text \<open>
  \<^verbatim>\<open>ws_etx_update\<close> adds to the three counters; an addition that overflows its \<^verbatim>\<open>int\<close>
  is undefined, and the result is \<open>None\<close>.
\<close>

definition ws_etx_update :: "ws_etx_ctx \<Rightarrow> ws_etx \<Rightarrow> int \<Rightarrow> bool \<Rightarrow> ws_etx option" where
  "ws_etx_update ctx e tx_count ack = do {
     r \<leftarrow> int_add (tx_req_cnt e) 1;
     t \<leftarrow> int_add (tx_cnt e) tx_count;
     a \<leftarrow> int_add (ack_cnt e) (if ack then 1 else 0);
     let e' = e\<lparr>tx_req_cnt := r, tx_cnt := t, ack_cnt := a\<rparr>;
     Some (if timer_stopped (timer_compute e') then e'\<lparr>timer_compute := Some 0\<rparr> else e')
   }"

text \<open>
  What can happen to an estimator: a call of \<^verbatim>\<open>ws_etx_update\<close>, one of its two timers
  firing, a call of \<^verbatim>\<open>ws_etx_reset\<close>. Each event comes with the context in force when it
  happens (its parameters are changed while the daemon runs). A timer that is not running
  does not fire. A run of events is undefined (\<open>None\<close>) from the first update on that
  overflows a counter.
\<close>

datatype etx_event =
    UPDATE int bool
  | TIMEOUT_COMPUTE
  | TIMEOUT_OUTDATED
  | RESET

fun etx_step :: "ws_etx \<Rightarrow> ws_etx_ctx \<times> etx_event \<Rightarrow> ws_etx option" where
  "etx_step e (ctx, UPDATE tx_count ack) = ws_etx_update ctx e tx_count ack"
| "etx_step e (ctx, TIMEOUT_COMPUTE) =
     (if timer_stopped (timer_compute e) then Some e
      else Some (fst (ws_etx_timeout_compute ctx (e\<lparr>timer_compute := None\<rparr>))))"
| "etx_step e (ctx, TIMEOUT_OUTDATED) =
     (if timer_stopped (timer_outdated e) then Some e
      else Some (fst (ws_etx_timeout_outdated ctx (e\<lparr>timer_outdated := None\<rparr>))))"
| "etx_step e (ctx, RESET) = Some (ws_etx_reset ctx e)"

fun etx_run :: "ws_etx \<Rightarrow> (ws_etx_ctx \<times> etx_event) list \<Rightarrow> ws_etx option" where
  "etx_run e [] = Some e"
| "etx_run e (ev # evs) = (case etx_step e ev of None \<Rightarrow> None | Some e' \<Rightarrow> etx_run e' evs)"

text \<open>An estimator as \<^verbatim>\<open>ws_etx_init\<close> leaves a zeroed \<^verbatim>\<open>struct ws_etx\<close>.\<close>

definition ws_etx_fresh :: ws_etx where
  "ws_etx_fresh =
     ws_etx_init \<lparr>etx = Some 0, tx_cnt = 0, ack_cnt = 0, tx_req_cnt = 0, compute_cnt = 0,
                  timer_compute = None, timer_outdated = None\<rparr>"

text \<open>
  The inputs under which the lower bound of the estimate holds: an update never reports a
  negative number of transmissions, and an acknowledged one reports at least one.
\<close>

fun etx_event_sound :: "ws_etx_ctx \<times> etx_event \<Rightarrow> bool" where
  "etx_event_sound (ctx, UPDATE tx_count ack) = ((if ack then 1 else 0) \<le> tx_count)"
| "etx_event_sound (ctx, ev) = True"

section \<open>app_wsrd/ipv6/rpl_mrhof.c\<close>

text \<open>
  The neighbor table of the link layer maps an EUI-64 to its entry (\<^verbatim>\<open>ws_neigh_get\<close>);
  of \<^verbatim>\<open>struct ws_neigh\<close> the objective function reads the ETX estimator (the field
  \<^verbatim>\<open>ws_etx\<close>, here \<open>neigh_ws_etx\<close>, since a record field \<open>ws_etx\<close> would take the name
  of the function \<^verbatim>\<open>ws_etx_update\<close>) and the two RSL averages, \<^verbatim>\<open>float\<close>s that are NaN
  (\<open>None\<close>) before the first measurement.
\<close>

record ws_neigh =
  neigh_ws_etx :: ws_etx
  rsl_in_dbm_unsecured :: "real option"
  rsl_out_dbm :: "real option"

text \<open>
  The RPL data of a neighbor, \<^verbatim>\<open>nce->rpl\<close>. The rank and the two increments of the DIO
  are stored in network byte order and read through \<^verbatim>\<open>ntohs\<close>; the model keeps the
  values that \<^verbatim>\<open>ntohs\<close> yields.
\<close>

record rpl_neigh =
  dio_rank :: "16 word"
  config_min_hop_rank_inc :: "16 word"
  config_max_rank_inc :: "16 word"
  is_parent :: bool
  rsl_valid :: bool
  deny_timer :: timer_entry

datatype ipv6_nud_state =
    IPV6_NUD_INCOMPLETE
  | IPV6_NUD_REACHABLE
  | IPV6_NUD_STALE
  | IPV6_NUD_DELAY
  | IPV6_NUD_PROBE

record ipv6_neigh =
  eui64 :: eui64
  rpl :: "rpl_neigh option"
  nud_state :: ipv6_nud_state

record rpl_mrhof =
  ws_neigh_table :: "eui64 \<Rightarrow> ws_neigh option"
  device_min_sens_dbm :: int
  max_link_metric :: real
  max_path_cost :: real
  parent_switch_threshold :: real
  lowest_advertised_rank :: "16 word"

text \<open>
  Of \<^verbatim>\<open>struct ipv6_ctx\<close>: the MRHOF state \<^verbatim>\<open>ipv6->rpl.mrhof\<close> and the neighbor cache,
  a singly linked list. A pointer to a neighbor is its position in the list.
\<close>

record ipv6_ctx =
  mrhof :: rpl_mrhof
  neigh_cache :: "ipv6_neigh list"

text \<open>
  Constants of \<^verbatim>\<open>common/specs/ws.h\<close> and \<^verbatim>\<open>common/specs/rpl.h\<close>, which are not part of
  the sources: they are parameters of the model.
\<close>

record specs =
  WS_CAND_PARENT_THRESHOLD_DB :: int
  WS_CAND_PARENT_HYSTERESIS_DB :: int
  RPL_RANK_INFINITE :: "16 word"

text \<open>
  A function that aborts the process (\<^verbatim>\<open>BUG_ON\<close>) or whose behaviour the C standard
  leaves undefined (a null \<^verbatim>\<open>nce->rpl\<close> dereferenced, an integer division by zero, an
  \<^verbatim>\<open>int\<close> sum that overflows, a \<^verbatim>\<open>float\<close> converted to an integer type that cannot
  hold it) yields \<open>None\<close>.

  The path cost is the \<^verbatim>\<open>float\<close> sum of the ETX and the advertised rank, converted to
  \<^verbatim>\<open>float\<close>; the conversion of a 16-bit rank is exact.
\<close>

definition rpl_mrhof_etx :: "ipv6_ctx \<Rightarrow> ipv6_neigh \<Rightarrow> real option" where
  "rpl_mrhof_etx ipv6 nce =
     (case ws_neigh_table (mrhof ipv6) (eui64 nce) of
        None \<Rightarrow> None
      | Some neigh \<Rightarrow> etx (neigh_ws_etx neigh))"

definition rpl_mrhof_path_cost :: "ipv6_ctx \<Rightarrow> ipv6_neigh \<Rightarrow> real option" where
  "rpl_mrhof_path_cost ipv6 nce =
     (case rpl_mrhof_etx ipv6 nce of
        None \<Rightarrow> Some (max_path_cost (mrhof ipv6))
      | Some e \<Rightarrow> do { r \<leftarrow> rpl nce; Some (float_add e (float_of_int (uint (dio_rank r)))) })"

definition rpl_mrhof_candidate_rsl_is_valid :: "specs \<Rightarrow> ipv6_ctx \<Rightarrow> ipv6_neigh \<Rightarrow> bool option" where
  "rpl_mrhof_candidate_rsl_is_valid X ipv6 nce =
     (case ws_neigh_table (mrhof ipv6) (eui64 nce) of
        None \<Rightarrow> Some False
      | Some neigh \<Rightarrow>
          (case rsl_out_dbm neigh of
             None \<Rightarrow> Some False
           | Some rsl_out \<Rightarrow> do {
               rsl_in \<leftarrow> rsl_in_dbm_unsecured neigh;
               r \<leftarrow> rpl nce;
               t \<leftarrow> int_add (device_min_sens_dbm (mrhof ipv6)) (WS_CAND_PARENT_THRESHOLD_DB X);
               if \<not> rsl_valid r then do {
                 threshold \<leftarrow> int_add t (WS_CAND_PARENT_HYSTERESIS_DB X);
                 Some (rsl_in > float_of_int threshold \<and> rsl_out > float_of_int threshold)
               } else do {
                 threshold \<leftarrow> int_sub t (WS_CAND_PARENT_HYSTERESIS_DB X);
                 Some (\<not> (rsl_in < float_of_int threshold \<and> rsl_out < float_of_int threshold))
               }
             }))"

text \<open>
  Modelled from the spec: \<^verbatim>\<open>rpl_dag_rank\<close> is declared in \<^verbatim>\<open>app_wsrd/ipv6/rpl.h\<close>, which
  is not part of the sources. The spec describes the rank limit as one MinHopRankIncrease
  step above the lowest advertised rank; the step number of a rank is its quotient by
  MinHopRankIncrease (DAGRank of RFC 6550). A zero divisor is undefined.
\<close>

definition rpl_dag_rank :: "16 word \<Rightarrow> 16 word \<Rightarrow> 16 word option" where
  "rpl_dag_rank min_hop_rank_inc rank =
     (if min_hop_rank_inc = 0 then None else Some (rank div min_hop_rank_inc))"

text \<open>
  \<^verbatim>\<open>rank_limit\<close> is a \<^verbatim>\<open>uint32_t\<close>; the product is at most \<open>65536 * 65535\<close> and is
  computed on natural numbers.
\<close>

definition rpl_mrhof_get_rank_limit :: "specs \<Rightarrow> rpl_mrhof \<Rightarrow> 16 word \<Rightarrow> 16 word \<Rightarrow> 16 word option" where
  "rpl_mrhof_get_rank_limit X m max_rank_inc min_hop_rank_inc = do {
     max_dag_rank \<leftarrow> rpl_dag_rank min_hop_rank_inc (add16sat (lowest_advertised_rank m) max_rank_inc);
     let rank_limit = (unat max_dag_rank + 1) * unat min_hop_rank_inc;
     if rank_limit \<ge> 65535 then Some (RPL_RANK_INFINITE X)
     else Some (word_of_nat (rank_limit - 1))
   }"

text \<open>
  Modelled from the spec: \<^verbatim>\<open>rpl_neigh_pref_parent\<close> is defined in \<^verbatim>\<open>app_wsrd/ipv6/rpl.c\<close>,
  which is not part of the sources. The preferred parent is the neighbor whose
  \<^verbatim>\<open>is_parent\<close> flag is set; the model takes the first such entry of the neighbor cache.
\<close>

fun slist_find :: "('a \<Rightarrow> bool) \<Rightarrow> 'a list \<Rightarrow> nat option" where
  "slist_find P [] = None"
| "slist_find P (x # xs) = (if P x then Some 0 else map_option Suc (slist_find P xs))"

definition nce_is_parent :: "ipv6_neigh \<Rightarrow> bool" where
  "nce_is_parent nce = (case rpl nce of None \<Rightarrow> False | Some r \<Rightarrow> is_parent r)"

definition rpl_neigh_pref_parent :: "ipv6_ctx \<Rightarrow> nat option" where
  "rpl_neigh_pref_parent ipv6 = slist_find nce_is_parent (neigh_cache ipv6)"

text \<open>
  The conversion of a \<^verbatim>\<open>float\<close> to \<^verbatim>\<open>uint16_t\<close> drops the fraction; it is undefined
  when the result does not fit.
\<close>

definition float_to_uint16 :: "real \<Rightarrow> 16 word option" where
  "float_to_uint16 x =
     (if x \<le> - 1 \<or> 65536 \<le> x then None
      else Some (word_of_int (if x < 0 then 0 else \<lfloor>x\<rfloor>)))"

definition rpl_mrhof_path_rank :: "ipv6_ctx \<Rightarrow> ipv6_neigh \<Rightarrow> 16 word option" where
  "rpl_mrhof_path_rank ipv6 nce = do {
     path_cost \<leftarrow> rpl_mrhof_path_cost ipv6 nce;
     float_to_uint16 (min path_cost 65535)
   }"

text \<open>
  The two loops of \<^verbatim>\<open>rpl_mrhof_rank\<close> over the parents in the neighbor cache, for the
  call without \<^verbatim>\<open>single_parent\<close>.
\<close>

fun worst_advertised_rank :: "ipv6_neigh list \<Rightarrow> 16 word \<Rightarrow> 16 word" where
  "worst_advertised_rank [] worst_rank = worst_rank"
| "worst_advertised_rank (nce # rest) worst_rank =
     (case rpl nce of
        None \<Rightarrow> worst_advertised_rank rest worst_rank
      | Some r \<Rightarrow>
          if \<not> is_parent r then worst_advertised_rank rest worst_rank
          else if worst_rank \<ge> dio_rank r then worst_advertised_rank rest worst_rank
          else worst_advertised_rank rest (dio_rank r))"

fun worst_path_rank :: "ipv6_ctx \<Rightarrow> ipv6_neigh list \<Rightarrow> 16 word \<Rightarrow> 16 word option" where
  "worst_path_rank ipv6 [] worst_rank = Some worst_rank"
| "worst_path_rank ipv6 (nce # rest) worst_rank =
     (case rpl nce of
        None \<Rightarrow> worst_path_rank ipv6 rest worst_rank
      | Some r \<Rightarrow>
          if \<not> is_parent r then worst_path_rank ipv6 rest worst_rank
          else do {
            path_rank \<leftarrow> rpl_mrhof_path_rank ipv6 nce;
            worst_path_rank ipv6 rest (max worst_rank path_rank)
          })"

text \<open>
  \<^verbatim>\<open>rpl_mrhof_rank(ipv6, single_parent)\<close>. The operands of the two \<^verbatim>\<open>MAX\<close> are
  promoted to \<^verbatim>\<open>int\<close>; the first result is truncated to 16 bits when it is stored in
  \<^verbatim>\<open>rank\<close>, the second lies between 0 and 65535.
\<close>

definition rpl_mrhof_rank :: "specs \<Rightarrow> ipv6_ctx \<Rightarrow> ipv6_neigh option \<Rightarrow> 16 word option" where
  "rpl_mrhof_rank X ipv6 single_parent =
     (case (case single_parent of
              Some sp \<Rightarrow> Some sp
            | None \<Rightarrow> map_option (\<lambda>i. neigh_cache ipv6 ! i) (rpl_neigh_pref_parent ipv6)) of
        None \<Rightarrow> Some (RPL_RANK_INFINITE X)
      | Some nce \<Rightarrow> do {
          rank1 \<leftarrow> rpl_mrhof_path_rank ipv6 nce;
          r \<leftarrow> rpl nce;
          let min_hop_rank_inc = config_min_hop_rank_inc r;
          let max_rank_inc = config_max_rank_inc r;
          worst_rank \<leftarrow> (case single_parent of
                           None \<Rightarrow> Some (worst_advertised_rank (neigh_cache ipv6) 0)
                         | Some sp \<Rightarrow> map_option dio_rank (rpl sp));
          if min_hop_rank_inc = 0 then None
          else do {
            let rank2 = (word_of_int (max (uint rank1)
                           (uint min_hop_rank_inc * (uint worst_rank div uint min_hop_rank_inc + 1)))
                         :: 16 word);
            worst_path \<leftarrow> (case single_parent of
                             None \<Rightarrow> worst_path_rank ipv6 (neigh_cache ipv6) 0
                           | Some sp \<Rightarrow> rpl_mrhof_path_rank ipv6 sp);
            Some (word_of_int (max (uint rank2) (uint worst_path - uint max_rank_inc)))
          }
        })"

text \<open>
  Modelled from the spec: \<^verbatim>\<open>ipv6_nud_set_state\<close> is defined in the neighbor discovery
  module, which is not part of the sources. Setting the state \<^verbatim>\<open>IPV6_NUD_PROBE\<close> starts
  the active neighbor-unreachability probe of the neighbor.
\<close>

definition ipv6_nud_set_state :: "ipv6_neigh \<Rightarrow> ipv6_nud_state \<Rightarrow> ipv6_neigh" where
  "ipv6_nud_set_state nce s = nce\<lparr>nud_state := s\<rparr>"

text \<open>
  \<^verbatim>\<open>rpl_mrhof_check_candidate\<close> returns the reason for which the candidate is discarded,
  or \<^verbatim>\<open>NULL\<close> (\<open>None\<close>) for an admissible one; the model returns it with the neighbor as
  the call leaves it.
\<close>

definition rpl_mrhof_check_candidate ::
  "specs \<Rightarrow> ipv6_ctx \<Rightarrow> ipv6_neigh \<Rightarrow> 16 word \<Rightarrow> (string option \<times> ipv6_neigh) option" where
  "rpl_mrhof_check_candidate X ipv6 nce rank_limit = do {
     r \<leftarrow> rpl nce;
     new_rank \<leftarrow> rpl_mrhof_rank X ipv6 (Some nce);
     case rpl_mrhof_etx ipv6 nce of
       None \<Rightarrow>
         Some (Some ''etx'',
               if nud_state nce \<noteq> IPV6_NUD_PROBE then ipv6_nud_set_state nce IPV6_NUD_PROBE
               else nce)
     | Some e \<Rightarrow> do {
         v \<leftarrow> rpl_mrhof_candidate_rsl_is_valid X ipv6 nce;
         let nce' = nce\<lparr>rpl := Some (r\<lparr>rsl_valid := v\<rparr>)\<rparr>;
         if \<not> v then Some (Some ''rsl'', nce')
         else if e > max_link_metric (mrhof ipv6) then Some (Some ''etx'', nce')
         else if \<not> timer_stopped (deny_timer r) then Some (Some ''denied'', nce')
         else if new_rank > rank_limit then Some (Some ''rank'', nce')
         else Some (None, nce')
       }
   }"

text \<open>
  The loop of \<^verbatim>\<open>rpl_mrhof_select_parent\<close> over the neighbor cache. \<open>i\<close> is the position
  of the head of the remaining list; the state is \<^verbatim>\<open>pref_path_cost\<close> and
  \<^verbatim>\<open>pref_parent_new\<close>; the result carries the neighbors as the loop leaves them. The
  functions called on a neighbor read the MRHOF state, the link-layer table and that
  neighbor only, so the context passed to them need not carry the updated cache.
\<close>

fun rpl_mrhof_select_loop ::
  "specs \<Rightarrow> ipv6_ctx \<Rightarrow> 16 word \<Rightarrow> nat \<Rightarrow> ipv6_neigh list \<Rightarrow> real \<times> nat option \<Rightarrow>
   ((real \<times> nat option) \<times> ipv6_neigh list) option" where
  "rpl_mrhof_select_loop X ipv6 rank_limit i [] st = Some (st, [])"
| "rpl_mrhof_select_loop X ipv6 rank_limit i (nce # rest) st =
     (case rpl nce of
        None \<Rightarrow> do {
          (st', rest') \<leftarrow> rpl_mrhof_select_loop X ipv6 rank_limit (Suc i) rest st;
          Some (st', nce # rest')
        }
      | Some _ \<Rightarrow> do {
          path_cost \<leftarrow> rpl_mrhof_path_cost ipv6 nce;
          new_rank \<leftarrow> rpl_mrhof_rank X ipv6 (Some nce);
          (discard, nce') \<leftarrow> rpl_mrhof_check_candidate X ipv6 nce rank_limit;
          let st' = (if discard \<noteq> None then st
                     else if path_cost \<ge> fst st then st
                     else (path_cost, Some i));
          (st'', rest') \<leftarrow> rpl_mrhof_select_loop X ipv6 rank_limit (Suc i) rest st';
          Some (st'', nce' # rest')
        })"

definition set_is_parent :: "bool \<Rightarrow> ipv6_neigh \<Rightarrow> ipv6_neigh" where
  "set_is_parent b nce = nce\<lparr>rpl := map_option (\<lambda>r. r\<lparr>is_parent := b\<rparr>) (rpl nce)\<rparr>"

text \<open>The value of \<^verbatim>\<open>cur_min_path_cost\<close> and of \<^verbatim>\<open>rank_limit\<close> before the loop.\<close>

definition cur_min_path_cost :: "ipv6_ctx \<Rightarrow> real option" where
  "cur_min_path_cost ipv6 =
     (case rpl_neigh_pref_parent ipv6 of
        None \<Rightarrow> Some (max_path_cost (mrhof ipv6))
      | Some cur \<Rightarrow> do {
          r \<leftarrow> rpl (neigh_cache ipv6 ! cur);
          if timer_stopped (deny_timer r) then rpl_mrhof_path_cost ipv6 (neigh_cache ipv6 ! cur)
          else Some (max_path_cost (mrhof ipv6))
        })"

definition select_rank_limit :: "specs \<Rightarrow> ipv6_ctx \<Rightarrow> 16 word option" where
  "select_rank_limit X ipv6 =
     (case rpl_neigh_pref_parent ipv6 of
        None \<Rightarrow> Some (RPL_RANK_INFINITE X)
      | Some cur \<Rightarrow> do {
          r \<leftarrow> rpl (neigh_cache ipv6 ! cur);
          rpl_mrhof_get_rank_limit X (mrhof ipv6) (config_max_rank_inc r) (config_min_hop_rank_inc r)
        })"

text \<open>
  \<^verbatim>\<open>rpl_mrhof_select_parent\<close> returns the preferred parent, a position in the neighbor
  cache or \<^verbatim>\<open>NULL\<close>; the model returns it with the context as the call leaves it.
\<close>

definition rpl_mrhof_select_parent :: "specs \<Rightarrow> ipv6_ctx \<Rightarrow> (nat option \<times> ipv6_ctx) option" where
  "rpl_mrhof_select_parent X ipv6 = do {
     let pref_parent_cur = rpl_neigh_pref_parent ipv6;
     cur_cost \<leftarrow> cur_min_path_cost ipv6;
     rank_limit \<leftarrow> select_rank_limit X ipv6;
     ((pref_path_cost, pref_parent_new), cache) \<leftarrow>
        rpl_mrhof_select_loop X ipv6 rank_limit 0 (neigh_cache ipv6)
          (max_path_cost (mrhof ipv6), None);
     if pref_parent_new = pref_parent_cur \<and> cur_cost < max_path_cost (mrhof ipv6) then
       Some (pref_parent_cur, ipv6\<lparr>neigh_cache := cache\<rparr>)
     else if cur_cost < max_path_cost (mrhof ipv6) \<and> pref_path_cost < max_path_cost (mrhof ipv6) \<and>
             float_add pref_path_cost (parent_switch_threshold (mrhof ipv6)) > cur_cost then
       (case pref_parent_cur of
          None \<Rightarrow> None
        | Some cur \<Rightarrow> Some (pref_parent_cur, ipv6\<lparr>neigh_cache := cache\<rparr>))
     else
       (let cache1 = (case pref_parent_cur of
                        None \<Rightarrow> cache
                      | Some cur \<Rightarrow> cache[cur := set_is_parent False (cache ! cur)]);
            cache2 = (case pref_parent_new of
                        None \<Rightarrow> cache1
                      | Some new \<Rightarrow> cache1[new := set_is_parent True (cache1 ! new)])
        in Some (pref_parent_new, ipv6\<lparr>neigh_cache := cache2\<rparr>))
   }"

text \<open>
  A candidate is admissible for a rank limit when \<^verbatim>\<open>rpl_mrhof_check_candidate\<close> returns
  \<^verbatim>\<open>NULL\<close> for it.
\<close>

definition admissible :: "specs \<Rightarrow> ipv6_ctx \<Rightarrow> 16 word \<Rightarrow> ipv6_neigh \<Rightarrow> bool" where
  "admissible X ipv6 rank_limit nce =
     (case rpl_mrhof_check_candidate X ipv6 nce rank_limit of
        Some (None, _) \<Rightarrow> True
      | _ \<Rightarrow> False)"

section \<open>Notions and examples for the key storage properties\<close>

text \<open>
  A line of the key file that sets the frame counter of the slot \<open>slot\<close> of
  \<^verbatim>\<open>supp->gtks\<close>: a valid line whose key is \<^verbatim>\<open>gtk[..].frame_counter\<close> with that
  index, or \<^verbatim>\<open>lgtk[..].frame_counter\<close> with that index less \<^verbatim>\<open>WS_GTK_COUNT\<close>.
\<close>

definition frame_counter_line :: "storage_env \<Rightarrow> 32 word \<Rightarrow> storage_parse_info \<Rightarrow> bool" where
  "frame_counter_line E slot info =
     (ret info = 0 \<and>
      (fnmatch (pat_gtk @ ''.frame_counter'') (key info) \<and> key_array_index info = slot \<or>
       fnmatch (pat_lgtk @ ''.frame_counter'') (key info) \<and>
         key_array_index info + WS_GTK_COUNT E = slot))"

text \<open>A pattern without \<^verbatim>\<open>*\<close> and without a quoting backslash.\<close>

definition plain :: "string \<Rightarrow> bool" where
  "plain p = (CHR ''*'' \<notin> set p \<and> CHR 0x5C \<notin> set p)"

text \<open>
  A storage environment whose parsers know a few values, a supplicant context with seven
  empty key slots (four GTKs, three LGTKs) and a given EUI-64, and a line of the key file.
\<close>

definition ex_env :: storage_env where
  "ex_env = \<lparr>parse_byte_array = (\<lambda>n s. if s = ''01:02:03:04:05:06:07:08'' then Some [1, 2, 3, 4, 5, 6, 7, 8] else None),
             strtoul = (\<lambda>s. if s = ''4294967296'' then 4294967296
                             else if s = ''4294900000'' then 4294900000 else 7),
             strtoull = (\<lambda>s. 0), strtoll = (\<lambda>s. 0), time_now_s = 0, WS_GTK_COUNT = 4\<rparr>"

definition ex_supp :: "eui64 \<Rightarrow> supp_ctx" where
  "ex_supp e = \<lparr>cfg_eui64 = e, pmk_key = [], pmk_installation_s = 0, pmk_replay_counter = 0,
                ptk_key = [], ptk_installation_s = 0,
                gtks = replicate 7 \<lparr>gtk_key = [], frame_counter = 0\<rparr>\<rparr>"

definition ex_line :: "string \<Rightarrow> 32 word \<Rightarrow> string \<Rightarrow> storage_parse_info" where
  "ex_line k i v = \<lparr>ret = 0, key = k, key_array_index = i, val = v\<rparr>"

section \<open>Notions and examples for the reassembly properties\<close>

text \<open>
  The positions at which a splitting cuts the datagram: where its chunks start, and the
  end. The holes of a list are tiled by a set of positions when they are non-empty, begin
  and end at such positions, and do not overlap.
\<close>

definition cuts :: "nat list \<Rightarrow> nat set" where
  "cuts ns = insert (sum_list ns) (fst ` set (chunks 0 ns))"

definition holes_tiled :: "nat set \<Rightarrow> lowpan_hole list \<Rightarrow> bool" where
  "holes_tiled B hs =
     ((\<forall>h \<in> set hs. hole_first h < hole_end h \<and> hole_first h \<in> B \<and> hole_end h \<in> B) \<and>
      holes_disjoint hs)"

text \<open>The bytes of a set of chunks, each a start position with a size.\<close>

definition covered :: "(nat \<times> nat) set \<Rightarrow> nat set" where
  "covered D = (\<Union>c \<in> D. {fst c ..< fst c + snd c})"

text \<open>
  A valid splitting of a datagram of \<open>l\<close> bytes: valid sizes that add up to \<open>l\<close>, with
  every fragment starting at an offset that its 8-bit field can hold.
\<close>

definition valid_split :: "nat \<Rightarrow> nat list \<Rightarrow> bool" where
  "valid_split l ns =
     (valid_sizes ns \<and> sum_list ns = l \<and> (\<forall>c \<in> set (chunks 0 ns). fst c div 8 < 256))"

text \<open>
  The state of a reassembly of \<open>data\<close> after the chunks \<open>D\<close> have been applied: the holes
  are tiled by the positions \<open>B\<close> and cover what \<open>D\<close> does not, and the buffer holds the
  data on \<open>D\<close>.
\<close>

definition reasm_progress ::
  "8 word list \<Rightarrow> nat set \<Rightarrow> (nat \<times> nat) set \<Rightarrow> lowpan_reasm \<Rightarrow> bool" where
  "reasm_progress data B D reasm =
     (len reasm = length data \<and> length (buf reasm) = length data \<and>
      holes_tiled B (holes reasm) \<and>
      holes_range (holes reasm) = {0 ..< length data} - covered D \<and>
      (\<forall>i \<in> covered D. buf reasm ! i = data ! i))"

text \<open>The holes that replace a hole which the fragment from \<open>ff\<close> to \<open>fe\<close> overlaps.\<close>

definition split_hole :: "nat \<Rightarrow> nat \<Rightarrow> lowpan_hole \<Rightarrow> lowpan_hole list" where
  "split_hole ff fe h =
     (if fe < hole_end h then [\<lparr>hole_first = fe, hole_end = hole_end h\<rparr>] else [])
     @ (if ff > hole_first h then [\<lparr>hole_first = hole_first h, hole_end = ff\<rparr>] else [])"

text \<open>A datagram of 40 bytes, the bytes 0 to 39.\<close>

definition ex_datagram :: "8 word list" where
  "ex_datagram = map word_of_nat [0 ..< 40]"

section \<open>Notions and examples for the ETX properties\<close>

text \<open>
  An event performs a computation when it is the compute timer firing while the epoch
  condition of \<^verbatim>\<open>ws_etx_timeout_compute\<close> holds. \<open>etx_trace\<close> runs an event and keeps,
  beside the estimator, whether a computation has occurred since the estimator was
  initialised or last reset; \<open>etx_history\<close> does so for a run of events.
\<close>

fun etx_computes :: "ws_etx \<Rightarrow> ws_etx_ctx \<times> etx_event \<Rightarrow> bool" where
  "etx_computes e (ctx, TIMEOUT_COMPUTE) =
     (\<not> timer_stopped (timer_compute e) \<and>
      (tx_req_cnt e \<ge> update_min_tx_req_cnt ctx \<or> etx e = None))"
| "etx_computes e (ctx, ev) = False"

definition etx_trace ::
  "ws_etx \<times> bool \<Rightarrow> ws_etx_ctx \<times> etx_event \<Rightarrow> (ws_etx \<times> bool) option" where
  "etx_trace s ev =
     map_option
       (\<lambda>e. (e, if snd ev = RESET then False else if etx_computes (fst s) ev then True else snd s))
       (etx_step (fst s) ev)"

fun etx_history ::
  "ws_etx \<times> bool \<Rightarrow> (ws_etx_ctx \<times> etx_event) list \<Rightarrow> (ws_etx \<times> bool) option" where
  "etx_history s [] = Some s"
| "etx_history s (ev # evs) =
     (case etx_trace s ev of None \<Rightarrow> None | Some s' \<Rightarrow> etx_history s' evs)"

text \<open>The context with the default parameters of the daemon and both callbacks set.\<close>

definition ex_etx_ctx :: ws_etx_ctx where
  "ex_etx_ctx = \<lparr>on_etx_outdated = True, on_etx_update = True, update_min_tx_req_cnt = 4,
                  update_min_delay_ms = 60000, refresh_period_ms = 1800000\<rparr>"

text \<open>
  What every run of sound events keeps: the acknowledgements counted do not exceed the
  transmissions counted, and the estimate is NaN exactly as long as no computation has
  occurred, and between 128 and 1024 afterwards.
\<close>

definition etx_inv :: "ws_etx \<times> bool \<Rightarrow> bool" where
  "etx_inv s =
     (0 \<le> ack_cnt (fst s) \<and> ack_cnt (fst s) \<le> tx_cnt (fst s) \<and>
      0 \<le> compute_cnt (fst s) \<and>
      (snd s \<longleftrightarrow> etx (fst s) \<noteq> None) \<and>
      (snd s \<longleftrightarrow> compute_cnt (fst s) \<noteq> 0) \<and>
      (\<forall>v. etx (fst s) = Some v \<longrightarrow> 128 \<le> v \<and> v \<le> 1024))"

text \<open>
  An estimator one minute after its first computation: three transmissions were
  acknowledged at once, the compute timer fired, one more frame was sent, and the compute
  timer fires again (it is stopped while its callback runs). The outdated timer, started by
  the computation, is still running.
\<close>

definition ex_etx_measured :: ws_etx where
  "ex_etx_measured =
     (the (etx_run ws_etx_fresh
        [(ex_etx_ctx, UPDATE 3 True), (ex_etx_ctx, TIMEOUT_COMPUTE), (ex_etx_ctx, UPDATE 1 True)]))
     \<lparr>timer_compute := None\<rparr>"

section \<open>Notions and examples for the parent selection properties\<close>

text \<open>
  A neighbor on which \<^verbatim>\<open>rpl_mrhof_check_candidate\<close> returns, that is, neither aborts nor
  is undefined: its rank is computable (MinHopRankIncrease is not zero, and the path cost is
  above \<open>-1\<close>, so that its conversion to 16 bits is defined), and when the RSL check is
  reached, \<^verbatim>\<open>rsl_in_dbm_unsecured\<close> is known and the threshold does not overflow an
  \<^verbatim>\<open>int\<close>. Neighbors without RPL data are skipped by the callers.
\<close>

definition neigh_defined :: "specs \<Rightarrow> ipv6_ctx \<Rightarrow> ipv6_neigh \<Rightarrow> bool" where
  "neigh_defined X ipv6 nce =
     (rpl nce = None \<or>
      rpl_mrhof_rank X ipv6 (Some nce) \<noteq> None \<and>
      (rpl_mrhof_etx ipv6 nce = None \<or> rpl_mrhof_candidate_rsl_is_valid X ipv6 nce \<noteq> None))"

text \<open>
  A router with the MRHOF parameters of the daemon (\<^verbatim>\<open>max_link_metric\<close> 512,
  \<^verbatim>\<open>max_path_cost\<close> 32768, \<^verbatim>\<open>parent_switch_threshold\<close> 192) that has not advertised a
  rank yet, a link-layer table given by the ETX of each neighbor (all with an RSL of -60 dBm
  in both directions), and a neighbor with RPL data: its EUI-64 ends in \<open>n\<close>, it advertises
  the given rank with MinHopRankIncrease 128 and MaxRankIncrease 0, and is not denied.
\<close>

definition ex_specs :: specs where
  "ex_specs = \<lparr>WS_CAND_PARENT_THRESHOLD_DB = 10, WS_CAND_PARENT_HYSTERESIS_DB = 3,
                RPL_RANK_INFINITE = 0xFFFF\<rparr>"

definition ex_ws_neigh :: "real option \<Rightarrow> ws_neigh" where
  "ex_ws_neigh e = \<lparr>neigh_ws_etx = ws_etx_fresh\<lparr>etx := e\<rparr>,
                    rsl_in_dbm_unsecured = Some (- 60), rsl_out_dbm = Some (- 60)\<rparr>"

definition ex_nce :: "8 word \<Rightarrow> 16 word \<Rightarrow> bool \<Rightarrow> ipv6_neigh" where
  "ex_nce n rank parent =
     \<lparr>eui64 = [0, 0, 0, 0, 0, 0, 0, n],
      rpl = Some \<lparr>dio_rank = rank, config_min_hop_rank_inc = 128, config_max_rank_inc = 0,
                  is_parent = parent, rsl_valid = True, deny_timer = None\<rparr>,
      nud_state = IPV6_NUD_REACHABLE\<rparr>"

definition ex_ipv6 :: "(8 word \<Rightarrow> real option) \<Rightarrow> ipv6_neigh list \<Rightarrow> ipv6_ctx" where
  "ex_ipv6 etx_of cache =
     \<lparr>mrhof = \<lparr>ws_neigh_table = (\<lambda>k. Some (ex_ws_neigh (etx_of (last k)))),
                device_min_sens_dbm = - 93, max_link_metric = 512, max_path_cost = 32768,
                parent_switch_threshold = 192, lowest_advertised_rank = 0xFFFF\<rparr>,
      neigh_cache = cache\<rparr>"

text \<open>
  A context on which \<^verbatim>\<open>rpl_mrhof_select_parent\<close> returns: \<^verbatim>\<open>rpl_mrhof_check_candidate\<close>
  returns on every neighbor, and the rank limit is computable (the MinHopRankIncrease of
  the current parent is not zero).
  \<open>parent_count\<close> is the number of neighbors whose \<^verbatim>\<open>is_parent\<close> flag is set.
\<close>

definition select_defined :: "specs \<Rightarrow> ipv6_ctx \<Rightarrow> bool" where
  "select_defined X ipv6 =
     (list_all (neigh_defined X ipv6) (neigh_cache ipv6) \<and> select_rank_limit X ipv6 \<noteq> None)"

definition parent_count :: "ipv6_ctx \<Rightarrow> nat" where
  "parent_count ipv6 = length (filter nce_is_parent (neigh_cache ipv6))"

text \<open>
  Three neighbor caches of two neighbors each, the first being the current parent. In the
  first the other neighbor is better by 128, in the second by 372; in the third both
  advertise the rank 40000, so that both path costs exceed \<^verbatim>\<open>max_path_cost\<close>, and the other
  neighbor is better by 272.
\<close>

definition ex_ipv6_keep :: ipv6_ctx where
  "ex_ipv6_keep = ex_ipv6 (\<lambda>n. if n = 1 then Some 384 else Some 256)
     [ex_nce 1 256 True, ex_nce 2 256 False]"

definition ex_ipv6_switch :: ipv6_ctx where
  "ex_ipv6_switch = ex_ipv6 (\<lambda>n. if n = 1 then Some 500 else Some 128)
     [ex_nce 1 256 True, ex_nce 2 256 False]"

definition ex_ipv6_far :: ipv6_ctx where
  "ex_ipv6_far = ex_ipv6 (\<lambda>n. if n = 1 then Some 400 else Some 128)
     [ex_nce 1 40000 True, ex_nce 2 40000 False]"

text \<open>
  Three more: the first cache with its parent under a deny timer; a cache whose parent has
  the path cost 592 and whose other neighbor has an ETX of \<open>200 + 2\<^sup>-\<^sup>1\<^sup>5\<close>, a \<^verbatim>\<open>float\<close>, and
  the path cost \<open>400 + 2\<^sup>-\<^sup>1\<^sup>5\<close>; and a single neighbor whose DIO carries a
  MinHopRankIncrease of zero.
\<close>

definition ex_denied :: "ipv6_neigh \<Rightarrow> ipv6_neigh" where
  "ex_denied nce = nce\<lparr>rpl := map_option (\<lambda>r. r\<lparr>deny_timer := Some 60000\<rparr>) (rpl nce)\<rparr>"

definition ex_zero_inc :: "ipv6_neigh \<Rightarrow> ipv6_neigh" where
  "ex_zero_inc nce = nce\<lparr>rpl := map_option (\<lambda>r. r\<lparr>config_min_hop_rank_inc := 0\<rparr>) (rpl nce)\<rparr>"

definition ex_ipv6_denied :: ipv6_ctx where
  "ex_ipv6_denied = ex_ipv6 (\<lambda>n. if n = 1 then Some 384 else Some 256)
     [ex_denied (ex_nce 1 256 True), ex_nce 2 256 False]"

definition ex_ipv6_tie :: ipv6_ctx where
  "ex_ipv6_tie = ex_ipv6 (\<lambda>n. if n = 1 then Some 336 else Some (200 + 1 / 32768))
     [ex_nce 1 256 True, ex_nce 2 200 False]"

definition ex_ipv6_zero :: ipv6_ctx where
  "ex_ipv6_zero = ex_ipv6 (\<lambda>n. Some 256) [ex_zero_inc (ex_nce 1 256 False)]"

chapter \<open>Properties\<close>

lemma add32sat_unat: "unat (add32sat a b) = min (unat a + unat b) (2 ^ 32 - 1)"
proof (cases "unat a + unat b < 2 ^ 32")
  case True
  then have s: "unat (a + b) = unat a + unat b"
    by (simp add: unat_word_ariths)
  then have "\<not> a + b < a"
    by (simp add: word_less_nat_alt)
  with s True show ?thesis
    by (simp add: add32sat_def Let_def)
next
  case False
  have "unat (a + b) = (unat a + unat b) mod 2 ^ 32"
    by (simp add: unat_word_ariths)
  moreover have "unat b < 2 ^ 32"
    using unsigned_less [of b] by simp
  moreover have "unat a < 2 ^ 32"
    using unsigned_less [of a] by simp
  ultimately have "unat (a + b) = unat a + unat b - 2 ^ 32"
    using False by (simp add: mod_if)
  then have "a + b < a"
    using \<open>unat b < 2 ^ 32\<close> False by (simp add: word_less_nat_alt)
  then show ?thesis
    using False by (simp add: add32sat_def Let_def)
qed

section \<open>Rounding to the 32-bit format\<close>

text \<open>
  The rounding is odd, monotone and idempotent, and it is exact on the integers up to
  \<open>2 ^ 24\<close>, among them every 16-bit rank.
\<close>

lemma rne_of_int [simp]: "rne (of_int k) = k"
  by (simp add: rne_def)

lemma rne_range: "rne x = \<lfloor>x\<rfloor> \<or> rne x = \<lfloor>x\<rfloor> + 1"
  by (simp add: rne_def Let_def)

lemma rne_mono: "x \<le> y \<Longrightarrow> rne x \<le> rne y"
proof -
  assume l: "x \<le> y"
  then have f: "\<lfloor>x\<rfloor> \<le> \<lfloor>y\<rfloor>" by (rule floor_mono)
  show ?thesis
  proof (cases "\<lfloor>x\<rfloor> = \<lfloor>y\<rfloor>")
    case True
    with l show ?thesis by (auto simp: rne_def Let_def)
  next
    case False
    with f have "\<lfloor>x\<rfloor> + 1 \<le> \<lfloor>y\<rfloor>" by simp
    with rne_range [of x] rne_range [of y] show ?thesis by auto
  qed
qed

lemma rne_neg: "rne (- x) = - rne x"
proof (cases "x = of_int \<lfloor>x\<rfloor>")
  case True
  then obtain k where "x = of_int k" ..
  then have "- x = of_int (- k)" by simp
  then show ?thesis unfolding \<open>x = of_int k\<close> by (simp only: rne_of_int)
next
  case False
  then have f: "\<lfloor>- x\<rfloor> = - \<lfloor>x\<rfloor> - 1"
    using ceiling_altdef [of x] by (simp add: ceiling_def)
  have g: "- x - of_int (- \<lfloor>x\<rfloor> - 1) = 1 - (x - of_int \<lfloor>x\<rfloor>)"
    by simp
  define d where "d = x - of_int \<lfloor>x\<rfloor>"
  define k where "k = \<lfloor>x\<rfloor>"
  have e: "even (- k - 1) = odd k"
    by simp
  show ?thesis
    unfolding rne_def Let_def f g
    unfolding d_def [symmetric] k_def [symmetric] e
    by (cases "d < 1 / 2"; cases "d > 1 / 2"; cases "even k") simp_all
qed

lemma float_exp_bounds:
  assumes "x \<noteq> 0"
  shows "2 powr of_int (float_exp x) \<le> \<bar>x\<bar>" "\<bar>x\<bar> < 2 powr (of_int (float_exp x) + 1)"
proof -
  from assms have p: "0 < \<bar>x\<bar>" by simp
  have "of_int (float_exp x) \<le> log 2 \<bar>x\<bar>" "log 2 \<bar>x\<bar> < of_int (float_exp x) + 1"
    unfolding float_exp_def by linarith+
  then show "2 powr of_int (float_exp x) \<le> \<bar>x\<bar>" "\<bar>x\<bar> < 2 powr (of_int (float_exp x) + 1)"
    using p by (simp_all add: le_log_iff log_less_iff)
qed

lemma float_exp_eq:
  assumes "2 powr of_int e \<le> \<bar>x\<bar>" "\<bar>x\<bar> < 2 powr (of_int e + 1)"
  shows "float_exp x = e"
proof -
  have p: "0 < \<bar>x\<bar>"
    using assms(1) by (smt (verit) powr_gt_zero)
  have "of_int e \<le> log 2 \<bar>x\<bar>" "log 2 \<bar>x\<bar> < of_int e + 1"
    using assms p by (simp_all add: le_log_iff log_less_iff)
  then show ?thesis
    unfolding float_exp_def by linarith
qed

lemma float_ulp_pos: "0 < float_ulp e"
  by (simp add: float_ulp_def)

lemma float_ulp_scale: "8388608 * float_ulp e = 2 powr of_int e"
proof -
  have "(2 :: real) powr 23 * 2 powr (of_int e - 23) = 2 powr (23 + (of_int e - 23))"
    by (simp only: powr_add)
  then show ?thesis by (simp add: float_ulp_def)
qed

lemma float_ulp_Suc: "float_ulp (e + 1) = 2 * float_ulp e"
proof -
  have "(2 :: real) powr (of_int e - 23 + 1) = 2 powr (of_int e - 23) * 2 powr 1"
    by (simp only: powr_add)
  then show ?thesis by (simp add: float_ulp_def algebra_simps)
qed

lemma float_round_eq:
  assumes "2 powr of_int e \<le> \<bar>x\<bar>" "\<bar>x\<bar> < 2 powr (of_int e + 1)"
  shows "float_round x = of_int (rne (x / float_ulp e)) * float_ulp e"
proof -
  have "0 < \<bar>x\<bar>"
    using assms(1) by (smt (verit) powr_gt_zero)
  then have "x \<noteq> 0" by simp
  then show ?thesis
    by (simp add: float_round_def float_exp_eq [OF assms])
qed

lemma float_mant_bounds:
  assumes "0 < x"
  shows "8388608 \<le> x / float_ulp (float_exp x)" "x / float_ulp (float_exp x) < 16777216"
proof -
  let ?e = "float_exp x" and ?u = "float_ulp (float_exp x)"
  from assms have n: "x \<noteq> 0" "\<bar>x\<bar> = x" by simp_all
  from float_exp_bounds [OF n(1)] n(2)
  have b: "2 powr of_int ?e \<le> x" "x < 2 powr (of_int ?e + 1)" by simp_all
  have "(2 :: real) powr (of_int ?e + 1) = 2 * 2 powr of_int ?e"
    by (simp add: powr_add)
  with b float_ulp_scale [of ?e] have "8388608 * ?u \<le> x" "x < 16777216 * ?u"
    by simp_all
  then show "8388608 \<le> x / ?u" "x / ?u < 16777216"
    using float_ulp_pos [of ?e] by (simp_all add: pos_le_divide_eq pos_divide_less_eq)
qed

lemma float_rne_bounds:
  assumes "0 < x"
  shows "8388608 \<le> rne (x / float_ulp (float_exp x))" "rne (x / float_ulp (float_exp x)) \<le> 16777216"
proof -
  from float_mant_bounds [OF assms]
  have "of_int 8388608 \<le> x / float_ulp (float_exp x)" "x / float_ulp (float_exp x) \<le> of_int 16777216"
    by simp_all
  from rne_mono [OF this(1)] rne_mono [OF this(2)]
  show "8388608 \<le> rne (x / float_ulp (float_exp x))" "rne (x / float_ulp (float_exp x)) \<le> 16777216"
    by (simp_all only: rne_of_int)
qed

lemma float_round_pos_bounds:
  assumes "0 < x"
  shows "2 powr of_int (float_exp x) \<le> float_round x"
    "float_round x \<le> 2 powr (of_int (float_exp x) + 1)"
proof -
  let ?e = "float_exp x" and ?u = "float_ulp (float_exp x)"
  let ?k = "rne (x / ?u)"
  from assms have r: "float_round x = of_int ?k * ?u"
    by (simp add: float_round_def)
  from float_rne_bounds [OF assms] have k: "8388608 \<le> (of_int ?k :: real)" "(of_int ?k :: real) \<le> 16777216"
    by linarith+
  have "8388608 * ?u \<le> of_int ?k * ?u" "of_int ?k * ?u \<le> 16777216 * ?u"
    using k float_ulp_pos [of ?e] by (simp_all add: mult_right_mono)
  moreover have "(2 :: real) powr (of_int ?e + 1) = 2 * 2 powr of_int ?e"
    by (simp add: powr_add)
  ultimately show "2 powr of_int ?e \<le> float_round x" "float_round x \<le> 2 powr (of_int ?e + 1)"
    unfolding r using float_ulp_scale [of ?e] by simp_all
qed

lemma float_round_pos: "0 < x \<Longrightarrow> 0 < float_round x"
  using float_round_pos_bounds(1) [of x] by (smt (verit) powr_gt_zero)

lemma float_exp_neg: "float_exp (- x) = float_exp x"
  by (simp add: float_exp_def)

lemma float_round_neg: "float_round (- x) = - float_round x"
  by (simp add: float_round_def float_exp_neg rne_neg)

lemma float_exp_mono:
  assumes "0 < x" "x \<le> y"
  shows "float_exp x \<le> float_exp y"
proof -
  have "log 2 x \<le> log 2 y"
    using assms by simp
  then have "\<lfloor>log 2 x\<rfloor> \<le> \<lfloor>log 2 y\<rfloor>"
    by (rule floor_mono)
  with assms show ?thesis by (simp add: float_exp_def)
qed

lemma float_round_mono_pos:
  assumes "0 < x" "x \<le> y"
  shows "float_round x \<le> float_round y"
proof (cases "float_exp x = float_exp y")
  case True
  let ?u = "float_ulp (float_exp y)"
  have "x / ?u \<le> y / ?u"
    using assms(2) float_ulp_pos [of "float_exp y"] by (simp add: divide_right_mono)
  then have "rne (x / ?u) \<le> rne (y / ?u)"
    by (rule rne_mono)
  then have "of_int (rne (x / ?u)) * ?u \<le> of_int (rne (y / ?u)) * ?u"
    using float_ulp_pos [of "float_exp y"] by (simp add: mult_right_mono)
  with assms True show ?thesis
    by (simp add: float_round_def)
next
  case False
  with float_exp_mono [OF assms] have "float_exp x + 1 \<le> float_exp y"
    by simp
  then have "(of_int (float_exp x) + 1 :: real) \<le> of_int (float_exp y)"
    by linarith
  then have "(2 :: real) powr (of_int (float_exp x) + 1) \<le> 2 powr of_int (float_exp y)"
    by simp
  moreover from assms have "0 < y" by simp
  ultimately show ?thesis
    using float_round_pos_bounds(2) [OF assms(1)] float_round_pos_bounds(1) [OF \<open>0 < y\<close>]
    by linarith
qed

lemma float_round_0 [simp]: "float_round 0 = 0"
  by (simp add: float_round_def)

lemma float_round_mono:
  assumes "x \<le> y"
  shows "float_round x \<le> float_round y"
proof -
  consider "0 < x" | "x = 0" "y = 0" | "x = 0" "0 < y" | "x < 0" "0 \<le> y" | "x < 0" "y < 0"
    using assms by linarith
  then show ?thesis
  proof cases
    case 1
    then show ?thesis using assms by (rule float_round_mono_pos)
  next
    case 2
    then show ?thesis by simp
  next
    case 3
    then show ?thesis using float_round_pos [of y] by simp
  next
    case 4
    then have "0 < float_round (- x)" by (intro float_round_pos) simp
    then have "float_round x < 0" by (simp add: float_round_neg)
    moreover have "0 \<le> float_round y"
      using 4(2) float_round_pos [of y] by (cases "y = 0") simp_all
    ultimately show ?thesis by simp
  next
    case 5
    then have "float_round (- y) \<le> float_round (- x)"
      using assms by (intro float_round_mono_pos) simp_all
    then show ?thesis by (simp add: float_round_neg)
  qed
qed

lemma float_round_idem_pos:
  assumes "0 < x"
  shows "float_round (float_round x) = float_round x"
proof -
  let ?e = "float_exp x" and ?u = "float_ulp (float_exp x)"
  let ?k = "rne (x / ?u)"
  from assms have r: "float_round x = of_int ?k * ?u"
    by (simp add: float_round_def)
  have p: "0 < float_round x"
    using assms by (rule float_round_pos)
  show ?thesis
  proof (cases "?k = 16777216")
    case True
    have s: "float_round x = 2 powr (of_int (?e + 1))"
      unfolding r True using float_ulp_scale [of "?e + 1"] float_ulp_Suc [of ?e] by simp
    have "(2 :: real) powr (of_int (?e + 1)) < 2 powr (of_int (?e + 1) + 1)"
      by simp
    with p have "float_round (float_round x)
        = of_int (rne (float_round x / float_ulp (?e + 1))) * float_ulp (?e + 1)"
      by (intro float_round_eq) (simp_all add: s)
    moreover have "float_round x / float_ulp (?e + 1) = of_int 8388608"
      unfolding s using float_ulp_scale [of "?e + 1"] float_ulp_pos [of "?e + 1"]
      by (simp add: field_simps)
    ultimately show ?thesis
      unfolding s using float_ulp_scale [of "?e + 1"] by (simp only: rne_of_int)
  next
    case False
    with float_rne_bounds [OF assms] have k: "8388608 \<le> ?k" "?k < 16777216"
      by simp_all
    then have "(of_int ?k :: real) < 16777216"
      by linarith
    then have "of_int ?k * ?u < 16777216 * ?u"
      using float_ulp_pos [of ?e] by (simp add: mult_strict_right_mono)
    moreover have "(2 :: real) powr (of_int ?e + 1) = 2 * 2 powr of_int ?e"
      by (simp add: powr_add)
    ultimately have "float_round x < 2 powr (of_int ?e + 1)"
      unfolding r using float_ulp_scale [of ?e] by simp
    with float_round_pos_bounds(1) [OF assms] p
    have "float_round (float_round x)
        = of_int (rne (float_round x / ?u)) * ?u"
      by (intro float_round_eq) simp_all
    moreover have "float_round x / ?u = of_int ?k"
      unfolding r using float_ulp_pos [of ?e] by simp
    ultimately show ?thesis
      unfolding r by (simp only: rne_of_int)
  qed
qed

lemma float_round_idem [simp]: "float_round (float_round x) = float_round x"
proof -
  consider "0 < x" | "x = 0" | "x < 0" by linarith
  then show ?thesis
  proof cases
    case 1
    then show ?thesis by (rule float_round_idem_pos)
  next
    case 2
    then show ?thesis by simp
  next
    case 3
    then have "float_round (float_round (- x)) = float_round (- x)"
      by (intro float_round_idem_pos) simp
    then show ?thesis by (simp add: float_round_neg)
  qed
qed

lemma float_round_of_int_pos:
  assumes "0 < k" "k \<le> 16777216"
  shows "float_round (of_int k) = of_int k"
proof -
  let ?x = "of_int k :: real"
  let ?e = "float_exp ?x"
  from assms have x: "0 < ?x" "1 \<le> ?x" "?x \<le> 16777216"
    by simp_all
  from float_exp_bounds [of ?x] x(1)
  have b: "2 powr of_int ?e \<le> ?x" "?x < 2 powr (of_int ?e + 1)"
    by simp_all
  have "\<bar>?x\<bar> = ?x"
    using x(1) by simp
  moreover have "0 \<le> log 2 ?x"
    using x(2) by simp
  ultimately have e0: "0 \<le> ?e"
    unfolding float_exp_def by simp
  have p24: "(2 :: real) powr of_int (24 :: int) = 16777216"
    by simp
  have "(2 :: real) powr of_int ?e \<le> 2 powr of_int (24 :: int)"
    unfolding p24 using b(1) x(3) by linarith
  then have "(of_int ?e :: real) \<le> of_int (24 :: int)"
    using powr_le_cancel_iff [of "2 :: real" "of_int ?e" "of_int (24 :: int)"] by linarith
  then have e24: "?e \<le> 24"
    by linarith
  show ?thesis
  proof (cases "?e = 24")
    case True
    with b(1) x(3) have k: "?x = 16777216"
      by simp
    have "float_round 16777216 = of_int (rne (16777216 / float_ulp 24)) * float_ulp 24"
      by (intro float_round_eq) simp_all
    moreover have "float_ulp 24 = 2"
      by (simp add: float_ulp_def)
    ultimately have "float_round 16777216 = of_int (rne (of_int 8388608)) * 2"
      by simp
    then show ?thesis
      unfolding k by (simp only: rne_of_int)
  next
    case False
    with e24 have e23: "?e \<le> 23" by simp
    define n where "n = nat (23 - ?e)"
    have "of_int ?e - 23 = - real n"
      using e23 by (simp add: n_def)
    then have u: "float_ulp ?e = 1 / 2 ^ n"
      by (simp add: float_ulp_def powr_minus powr_realpow inverse_eq_divide)
    have "?x / float_ulp ?e = of_int (k * 2 ^ n)"
      by (simp add: u)
    then have "rne (?x / float_ulp ?e) = k * 2 ^ n"
      by (simp only: rne_of_int)
    with x(1) show ?thesis
      by (simp add: float_round_def u)
  qed
qed

lemma float_round_of_int:
  assumes "\<bar>k\<bar> \<le> 16777216"
  shows "float_round (of_int k) = of_int k"
proof -
  consider "0 < k" | "k = 0" | "k < 0" by linarith
  then show ?thesis
  proof cases
    case 1
    with assms show ?thesis by (intro float_round_of_int_pos) simp_all
  next
    case 2
    then show ?thesis by simp
  next
    case 3
    with assms have "float_round (of_int (- k)) = of_int (- k)"
      by (intro float_round_of_int_pos) simp_all
    then show ?thesis by (simp add: float_round_neg)
  qed
qed

lemma float_round_numeral:
  "numeral n \<le> (16777216 :: int) \<Longrightarrow> float_round (numeral n) = numeral n"
  using float_round_of_int [of "numeral n"] by simp

lemma float_round_neg_numeral:
  "numeral n \<le> (16777216 :: int) \<Longrightarrow> float_round (- numeral n) = - numeral n"
  by (simp add: float_round_neg float_round_numeral)

lemma float_of_int_small: "\<bar>i\<bar> \<le> 16777216 \<Longrightarrow> float_of_int i = of_int i"
  by (simp add: float_of_int_def float_round_of_int)

lemma float_of_int_uint16: "float_of_int (uint (w :: 16 word)) = of_int (uint w)"
proof -
  have "uint w < 2 ^ 16"
    using uint_bounded [of w] by simp
  then show ?thesis
    by (intro float_of_int_small) simp
qed

lemma float_add_mono: "a \<le> b \<Longrightarrow> float_add a c \<le> float_add b c"
  by (simp add: float_add_def float_round_mono)

lemma float_add_idem: "float_round (float_add a b) = float_add a b"
  by (simp add: float_add_def float_round_idem)

section \<open>Loading the supplicant's keys\<close>

lemma fnmatch_Cons_plain:
  "p \<noteq> CHR ''*'' \<Longrightarrow> p \<noteq> CHR 0x5C \<Longrightarrow>
   fnmatch (p # ps) s = (\<exists>s'. s = p # s' \<and> fnmatch ps s')"
  by (cases s) auto

lemma fnmatch_quoted:
  "fnmatch (CHR 0x5C # q # ps) s = (\<exists>s'. s = q # s' \<and> fnmatch ps s')"
  by (cases s) auto

lemma fnmatch_plain: "plain p \<Longrightarrow> fnmatch p s = (s = p)"
proof (induction p arbitrary: s)
  case Nil
  then show ?case by simp
next
  case (Cons a p)
  then show ?case by (cases s) (auto simp: plain_def)
qed

lemma fnmatch_star_plain: "plain p \<Longrightarrow> fnmatch (CHR ''*'' # p) s = (\<exists>m. s = m @ p)"
proof (induction s)
  case Nil
  then show ?case by (auto simp add: fnmatch_plain)
next
  case (Cons c s)
  have "(\<exists>m. c # s = m @ p) = (c # s = p \<or> (\<exists>m. s = m @ p))"
    by (auto simp: Cons_eq_append_conv)
  with Cons show ?case by (simp add: fnmatch_plain eq_commute)
qed

lemma fnmatch_pat_gtk:
  "plain p \<Longrightarrow> fnmatch (pat_gtk @ p) k = (\<exists>m. k = ''gtk['' @ m @ '']'' @ p)"
  by (auto simp add: pat_gtk_def fnmatch_Cons_plain fnmatch_quoted fnmatch_star_plain plain_def)

lemma fnmatch_pat_lgtk:
  "plain p \<Longrightarrow> fnmatch (pat_lgtk @ p) k = (\<exists>m. k = ''lgtk['' @ m @ '']'' @ p)"
  by (auto simp add: pat_lgtk_def fnmatch_Cons_plain fnmatch_quoted fnmatch_star_plain plain_def)

lemma load_line_cfg:
  "supp_storage_load_line E st info = Inr st' \<Longrightarrow> cfg_eui64 (fst st') = cfg_eui64 (fst st)"
  by (auto simp: supp_storage_load_line_def Let_def load_gtk_key_def load_gtk_expiration_def
      load_gtk_frame_counter_def array_set_def split: if_splits option.splits sum.splits)

lemma load_lines_cfg:
  "supp_storage_load_lines E st infos = Inr st' \<Longrightarrow> cfg_eui64 (fst st') = cfg_eui64 (fst st)"
proof (induction infos arbitrary: st)
  case Nil
  then show ?case by simp
next
  case (Cons info infos)
  then show ?case
    by (auto split: sum.splits dest: load_line_cfg)
qed

lemma load_lines_append:
  "supp_storage_load_lines E st (xs @ ys) =
     (case supp_storage_load_lines E st xs of
        Inl e \<Rightarrow> Inl e
      | Inr st' \<Rightarrow> supp_storage_load_lines E st' ys)"
  by (induction xs arbitrary: st) (auto split: sum.splits)

lemma load_line_eui64:
  "ret info = 0 \<Longrightarrow> fnmatch ''eui64'' (key info) \<Longrightarrow>
   supp_storage_load_line E st info =
     (case parse_byte_array E 8 (val info) of
        None \<Rightarrow> Inl (FATAL 1 ''invalid eui64'')
      | Some e \<Rightarrow>
          if e = cfg_eui64 (fst st) then Inr st
          else Inl (FATAL 1 ''eui64 mismatch between current and previous state loaded from storage''))"
  by (simp add: supp_storage_load_line_def Let_def split: option.splits)

text \<open>
  Claim C8. When the loader reads a valid line with the key \<^verbatim>\<open>eui64\<close>, after a prefix
  of the file that it has loaded without aborting, it aborts the process with a fatal error
  if the value does not parse or if the stored EUI-64 differs from the configured one; and
  if they are equal it goes on with the remaining lines from the state it had reached.
\<close>

theorem supp_storage_load_eui64_check:
  assumes "ret info = 0" and "fnmatch ''eui64'' (key info)"
    and "supp_storage_load_lines E st pre = Inr st'"
  shows "supp_storage_load_lines E st (pre @ info # post) =
     (case parse_byte_array E 8 (val info) of
        None \<Rightarrow> Inl (FATAL 1 ''invalid eui64'')
      | Some e \<Rightarrow>
          if e = cfg_eui64 (fst st) then supp_storage_load_lines E st' post
          else Inl (FATAL 1 ''eui64 mismatch between current and previous state loaded from storage''))"
  using assms load_lines_cfg [OF assms(3)]
  by (simp add: load_lines_append load_line_eui64 split: option.splits)

lemma frame_counter_key_gtk:
  assumes "fnmatch (pat_gtk @ ''.frame_counter'') k"
  shows "\<not> fnmatch ''eui64'' k" "\<not> fnmatch ''pmk'' k" "\<not> fnmatch ''pmk.replay_counter'' k"
    "\<not> fnmatch ''ptk'' k" "\<not> fnmatch pat_gtk k"
    "\<not> fnmatch (pat_gtk @ ''.expiration_timestamp_ms'') k"
proof -
  from assms obtain m where k: "k = ''gtk['' @ m @ '']'' @ ''.frame_counter''"
    by (auto simp: fnmatch_pat_gtk plain_def)
  show "\<not> fnmatch ''eui64'' k" "\<not> fnmatch ''pmk'' k" "\<not> fnmatch ''pmk.replay_counter'' k"
    "\<not> fnmatch ''ptk'' k"
    by (simp_all add: k)
  have l: "last k = CHR ''r''" by (simp add: k)
  show "\<not> fnmatch pat_gtk k"
  proof
    assume "fnmatch pat_gtk k"
    then obtain m' where "k = ''gtk['' @ m' @ '']''"
      using fnmatch_pat_gtk [of "[]" k] by (auto simp: plain_def)
    then have "last k = CHR '']''" by simp
    with l show False by simp
  qed
  show "\<not> fnmatch (pat_gtk @ ''.expiration_timestamp_ms'') k"
  proof
    assume "fnmatch (pat_gtk @ ''.expiration_timestamp_ms'') k"
    then obtain m' where "k = ''gtk['' @ m' @ '']'' @ ''.expiration_timestamp_ms''"
      by (auto simp: fnmatch_pat_gtk plain_def)
    then have "last k = CHR ''s''" by simp
    with l show False by simp
  qed
qed

lemma frame_counter_key_lgtk:
  assumes "fnmatch (pat_lgtk @ ''.frame_counter'') k"
  shows "\<not> fnmatch ''eui64'' k" "\<not> fnmatch ''pmk'' k" "\<not> fnmatch ''pmk.replay_counter'' k"
    "\<not> fnmatch ''ptk'' k" "\<not> fnmatch pat_gtk k"
    "\<not> fnmatch (pat_gtk @ ''.expiration_timestamp_ms'') k"
    "\<not> fnmatch (pat_gtk @ ''.frame_counter'') k"
    "\<not> fnmatch pat_lgtk k"
    "\<not> fnmatch (pat_lgtk @ ''.expiration_timestamp_ms'') k"
proof -
  from assms obtain m where k: "k = ''lgtk['' @ m @ '']'' @ ''.frame_counter''"
    by (auto simp: fnmatch_pat_lgtk plain_def)
  show "\<not> fnmatch ''eui64'' k" "\<not> fnmatch ''pmk'' k" "\<not> fnmatch ''pmk.replay_counter'' k"
    "\<not> fnmatch ''ptk'' k" "\<not> fnmatch pat_gtk k"
    "\<not> fnmatch (pat_gtk @ ''.expiration_timestamp_ms'') k"
    "\<not> fnmatch (pat_gtk @ ''.frame_counter'') k"
    by (simp_all add: k pat_gtk_def)
  have l: "last k = CHR ''r''" by (simp add: k)
  show "\<not> fnmatch pat_lgtk k"
  proof
    assume "fnmatch pat_lgtk k"
    then obtain m' where "k = ''lgtk['' @ m' @ '']''"
      using fnmatch_pat_lgtk [of "[]" k] by (auto simp: plain_def)
    then have "last k = CHR '']''" by simp
    with l show False by simp
  qed
  show "\<not> fnmatch (pat_lgtk @ ''.expiration_timestamp_ms'') k"
  proof
    assume "fnmatch (pat_lgtk @ ''.expiration_timestamp_ms'') k"
    then obtain m' where "k = ''lgtk['' @ m' @ '']'' @ ''.expiration_timestamp_ms''"
      by (auto simp: fnmatch_pat_lgtk plain_def)
    then have "last k = CHR ''s''" by simp
    with l show False by simp
  qed
qed

lemma load_line_gtk_frame_counter:
  "ret info = 0 \<Longrightarrow> fnmatch (pat_gtk @ ''.frame_counter'') (key info) \<Longrightarrow>
   supp_storage_load_line E st info =
     load_gtk_frame_counter E st (key_array_index info) (val info)"
  by (simp add: supp_storage_load_line_def Let_def frame_counter_key_gtk)

lemma load_line_lgtk_frame_counter:
  "ret info = 0 \<Longrightarrow> fnmatch (pat_lgtk @ ''.frame_counter'') (key info) \<Longrightarrow>
   supp_storage_load_line E st info =
     load_gtk_frame_counter E st (key_array_index info + WS_GTK_COUNT E) (val info)"
  by (simp add: supp_storage_load_line_def Let_def frame_counter_key_lgtk)

lemma add32sat_offset_ahead:
  "a < add32sat a FRAME_COUNTER_OFFSET \<or> add32sat a FRAME_COUNTER_OFFSET = 0xFFFFFFFF"
proof (cases "unat a + 200000 < 2 ^ 32")
  case True
  then have "unat (add32sat a FRAME_COUNTER_OFFSET) = unat a + 200000"
    by (simp add: add32sat_unat FRAME_COUNTER_OFFSET_def)
  then show ?thesis by (simp add: word_less_nat_alt)
next
  case False
  then have "unat (add32sat a FRAME_COUNTER_OFFSET) = unat (0xFFFFFFFF :: 32 word)"
    by (simp add: add32sat_unat FRAME_COUNTER_OFFSET_def)
  then show ?thesis by (simp only: word_unat_eq_iff) simp
qed

lemma frame_counter_line_load:
  assumes "frame_counter_line E slot info"
  shows "supp_storage_load_line E st info = load_gtk_frame_counter E st slot (val info)"
  using assms
  by (auto simp: frame_counter_line_def load_line_gtk_frame_counter load_line_lgtk_frame_counter)

lemma load_gtk_frame_counter_Inr:
  assumes "load_gtk_frame_counter E st slot v = Inr st'"
  shows "unat slot < length (gtks (fst st))"
    "length (gtks (fst st')) = length (gtks (fst st))"
    "frame_counter (gtks (fst st') ! unat slot) = add32sat (ucast (strtoul E v)) FRAME_COUNTER_OFFSET"
    "\<forall>j. j \<noteq> unat slot \<longrightarrow> frame_counter (gtks (fst st') ! j) = frame_counter (gtks (fst st) ! j)"
  using assms
  by (auto simp: load_gtk_frame_counter_def array_set_def split: if_splits)

lemma load_gtk_key_Inr:
  assumes "load_gtk_key E st slot v = Inr st'"
  shows "length (gtks (fst st')) = length (gtks (fst st))"
    "frame_counter (gtks (fst st') ! j) = frame_counter (gtks (fst st) ! j)"
  using assms
  by (auto simp: load_gtk_key_def Let_def nth_list_update split: if_splits option.splits)

lemma load_gtk_expiration_Inr:
  assumes "load_gtk_expiration E st slot v = Inr st'"
  shows "gtks (fst st') = gtks (fst st)"
  using assms
  by (auto simp: load_gtk_expiration_def array_set_def split: if_splits)

lemma load_line_shape:
  assumes "supp_storage_load_line E st info = Inr st'"
  shows "gtks (fst st') = gtks (fst st) \<or>
     (\<exists>i. load_gtk_key E st i (val info) = Inr st') \<or>
     (ret info = 0 \<and> fnmatch (pat_gtk @ ''.frame_counter'') (key info) \<and>
        load_gtk_frame_counter E st (key_array_index info) (val info) = Inr st') \<or>
     (ret info = 0 \<and> fnmatch (pat_lgtk @ ''.frame_counter'') (key info) \<and>
        load_gtk_frame_counter E st (key_array_index info + WS_GTK_COUNT E) (val info) = Inr st')"
  using assms unfolding supp_storage_load_line_def Let_def load_gtk_expiration_def array_set_def
  by (simp split: if_split_asm option.split_asm) auto

lemma load_line_other:
  assumes "\<not> frame_counter_line E slot info"
    and "supp_storage_load_line E st info = Inr st'"
  shows "length (gtks (fst st')) = length (gtks (fst st)) \<and>
     frame_counter (gtks (fst st') ! unat slot) = frame_counter (gtks (fst st) ! unat slot)"
  using load_line_shape [OF assms(2)]
proof (elim disjE exE conjE)
  assume "gtks (fst st') = gtks (fst st)"
  then show ?thesis by simp
next
  fix i assume "load_gtk_key E st i (val info) = Inr st'"
  from load_gtk_key_Inr [OF this] show ?thesis by simp
next
  assume gfc: "ret info = 0" "fnmatch (pat_gtk @ ''.frame_counter'') (key info)"
    "load_gtk_frame_counter E st (key_array_index info) (val info) = Inr st'"
  with assms(1) have "key_array_index info \<noteq> slot"
    by (auto simp: frame_counter_line_def)
  then have "unat slot \<noteq> unat (key_array_index info)"
    by (simp add: word_unat_eq_iff)
  with load_gtk_frame_counter_Inr [OF gfc(3)] show ?thesis by simp
next
  assume lfc: "ret info = 0" "fnmatch (pat_lgtk @ ''.frame_counter'') (key info)"
    "load_gtk_frame_counter E st (key_array_index info + WS_GTK_COUNT E) (val info) = Inr st'"
  with assms(1) have "key_array_index info + WS_GTK_COUNT E \<noteq> slot"
    by (auto simp: frame_counter_line_def)
  then have "unat slot \<noteq> unat (key_array_index info + WS_GTK_COUNT E)"
    by (simp add: word_unat_eq_iff)
  with load_gtk_frame_counter_Inr [OF lfc(3)] show ?thesis by simp
qed

lemma load_lines_other:
  assumes "list_all (\<lambda>l. \<not> frame_counter_line E slot l) infos"
    and "supp_storage_load_lines E st infos = Inr st'"
  shows "length (gtks (fst st')) = length (gtks (fst st)) \<and>
     frame_counter (gtks (fst st') ! unat slot) = frame_counter (gtks (fst st) ! unat slot)"
  using assms
proof (induction infos arbitrary: st)
  case Nil
  then show ?case by simp
next
  case (Cons info infos)
  from Cons.prems(2) obtain st1 where 1: "supp_storage_load_line E st info = Inr st1"
    and 2: "supp_storage_load_lines E st1 infos = Inr st'"
    by (auto split: sum.splits)
  from Cons.prems(1) have n: "\<not> frame_counter_line E slot info"
    "list_all (\<lambda>l. \<not> frame_counter_line E slot l) infos"
    by simp_all
  from load_line_other [OF n(1) 1] Cons.IH [OF n(2) 2] show ?case by simp
qed

text \<open>
  Claim C9, amended. When the file holds a valid line for the frame counter of a GTK or LGTK
  slot whose stored value is below \<open>2 ^ 32\<close>, no later line sets the counter of that slot
  again, and the parsing loop of \<^verbatim>\<open>supp_storage_load\<close> runs to the end of the file, then
  the slot exists and its frame counter is the stored value plus 200000, saturated at
  \<open>2 ^ 32 - 1\<close>: the sum does not wrap, and the restored counter is strictly ahead of the
  stored one unless it is saturated. (The loop that follows the parsing clears the keys
  that have expired and installs the others, passing their frame counters on as the
  parsing left them; it calls functions that are not part of the sources and is not
  modelled.)
\<close>

theorem supp_storage_load_frame_counter:
  assumes "frame_counter_line E slot info"
    and "list_all (\<lambda>l. \<not> frame_counter_line E slot l) post"
    and "supp_storage_load_lines E st (pre @ info # post) = Inr st'"
    and "stored = unat (strtoul E (val info))" and "stored < 2 ^ 32"
  shows "unat slot < length (gtks (fst st')) \<and>
      unat (frame_counter (gtks (fst st') ! unat slot)) = min (stored + 200000) (2 ^ 32 - 1) \<and>
      (stored < unat (frame_counter (gtks (fst st') ! unat slot)) \<or>
       frame_counter (gtks (fst st') ! unat slot) = 0xFFFFFFFF)"
proof -
  from assms(3) obtain st1 st2 where 1: "supp_storage_load_lines E st pre = Inr st1"
    and 2: "supp_storage_load_line E st1 info = Inr st2"
    and 3: "supp_storage_load_lines E st2 post = Inr st'"
    by (auto simp: load_lines_append split: sum.splits)
  from 2 have u: "load_gtk_frame_counter E st1 slot (val info) = Inr st2"
    by (simp add: frame_counter_line_load [OF assms(1)])
  let ?s = "ucast (strtoul E (val info)) :: 32 word"
  have s: "unat ?s = stored"
    using assms(4,5) by (simp add: unsigned_ucast_eq take_bit_nat_eq_self)
  from load_lines_other [OF assms(2) 3] load_gtk_frame_counter_Inr(1,2,3) [OF u]
  have f: "unat slot < length (gtks (fst st'))"
    "frame_counter (gtks (fst st') ! unat slot) = add32sat ?s FRAME_COUNTER_OFFSET"
    by simp_all
  have "unat (add32sat ?s FRAME_COUNTER_OFFSET) = min (stored + 200000) (2 ^ 32 - 1)"
    by (simp add: add32sat_unat FRAME_COUNTER_OFFSET_def s)
  moreover have "?s < add32sat ?s FRAME_COUNTER_OFFSET \<or> add32sat ?s FRAME_COUNTER_OFFSET = 0xFFFFFFFF"
    by (rule add32sat_offset_ahead)
  ultimately show ?thesis
    unfolding f(2) using f(1) s by (auto simp: word_less_nat_alt)
qed

theorem supp_storage_load_eui64_check_witness:
  "supp_storage_load_lines ex_env (ex_supp [1, 2, 3, 4, 5, 6, 7, 8], replicate 7 0)
     ([] @ ex_line ''eui64'' 0xFFFFFFFF ''01:02:03:04:05:06:07:08'' # [])
   = Inr (ex_supp [1, 2, 3, 4, 5, 6, 7, 8], replicate 7 0) \<and>
   supp_storage_load_lines ex_env (ex_supp [1, 2, 3, 4, 5, 6, 7, 9], replicate 7 0)
     ([] @ ex_line ''eui64'' 0xFFFFFFFF ''01:02:03:04:05:06:07:08'' # [])
   = Inl (FATAL 1 ''eui64 mismatch between current and previous state loaded from storage'')"
proof -
  have a: "ret (ex_line ''eui64'' 0xFFFFFFFF ''01:02:03:04:05:06:07:08'') = 0"
    by (simp add: ex_line_def)
  have b: "fnmatch ''eui64'' (key (ex_line ''eui64'' 0xFFFFFFFF ''01:02:03:04:05:06:07:08''))"
    by (simp add: ex_line_def)
  have c: "supp_storage_load_lines ex_env (s, replicate 7 0) [] = Inr (s, replicate 7 0)" for s
    by simp
  show ?thesis
    using supp_storage_load_eui64_check [OF a b c, of "ex_supp [1, 2, 3, 4, 5, 6, 7, 8]" "[]"]
      supp_storage_load_eui64_check [OF a b c, of "ex_supp [1, 2, 3, 4, 5, 6, 7, 9]" "[]"]
    by (simp add: ex_env_def ex_supp_def ex_line_def)
qed

lemmas ex_storage_defs = ex_env_def ex_supp_def ex_line_def pat_gtk_def pat_lgtk_def
  supp_storage_load_line_def load_gtk_frame_counter_def load_gtk_key_def load_gtk_expiration_def
  array_set_def add32sat_def FRAME_COUNTER_OFFSET_def

text \<open>
  The claim C9 as stated fails for a stored value that does not fit 32 bits: the cast to
  \<^verbatim>\<open>uint32_t\<close> reduces the value that \<^verbatim>\<open>strtoul\<close> returns modulo \<open>2 ^ 32\<close> before
  the saturating addition, so that the stored value \<open>2 ^ 32\<close> is restored as 200000.
\<close>

theorem supp_storage_load_frame_counter_counterexample:
  "strtoul ex_env ''4294967296'' = 4294967296 \<and>
   supp_storage_load_lines ex_env (ex_supp [], replicate 7 0)
     [ex_line ''gtk[2].frame_counter'' 2 ''4294967296'']
   = Inr ((ex_supp [])\<lparr>gtks := (replicate 7 \<lparr>gtk_key = [], frame_counter = 0\<rparr>)
                                  [2 := \<lparr>gtk_key = [], frame_counter = 200000\<rparr>]\<rparr>,
          replicate 7 0)"
proof -
  have w: "(4295167296 :: 32 word) = 200000"
    by simp
  show ?thesis
    by (simp add: ex_storage_defs w)
qed

text \<open>
  A line whose index lies outside the array \<^verbatim>\<open>gtks\<close> makes the loader write outside it:
  the run is undefined.
\<close>

lemma supp_storage_load_out_of_bounds:
  "supp_storage_load_lines ex_env (ex_supp [], replicate 7 0)
     [ex_line ''gtk[9].frame_counter'' 9 ''7''] = Inl OUT_OF_BOUNDS"
  by (simp add: ex_storage_defs)

theorem supp_storage_load_frame_counter_witness:
  "frame_counter_line ex_env 5 (ex_line ''lgtk[1].frame_counter'' 1 ''7'') \<and>
   list_all (\<lambda>l. \<not> frame_counter_line ex_env 5 l)
     [ex_line ''gtk[2].frame_counter'' 2 ''4294900000'', ex_line ''pmk.replay_counter'' 0 ''1''] \<and>
   unat (strtoul ex_env (val (ex_line ''lgtk[1].frame_counter'' 1 ''7''))) < 2 ^ 32 \<and>
   (\<exists>st'. supp_storage_load_lines ex_env (ex_supp [], replicate 7 0)
            ([ex_line ''lgtk[1].frame_counter'' 1 ''4294900000'']
             @ ex_line ''lgtk[1].frame_counter'' 1 ''7''
             # [ex_line ''gtk[2].frame_counter'' 2 ''4294900000'',
                ex_line ''pmk.replay_counter'' 0 ''1'']) = Inr st' \<and>
          unat (frame_counter (gtks (fst st') ! 5)) = 200007)"
proof -
  let ?info = "ex_line ''lgtk[1].frame_counter'' 1 ''7''"
  let ?pre = "[ex_line ''lgtk[1].frame_counter'' 1 ''4294900000'']"
  let ?post = "[ex_line ''gtk[2].frame_counter'' 2 ''4294900000'', ex_line ''pmk.replay_counter'' 0 ''1'']"
  have a: "frame_counter_line ex_env 5 ?info"
    by (simp add: frame_counter_line_def ex_storage_defs)
  have b: "list_all (\<lambda>l. \<not> frame_counter_line ex_env 5 l) ?post"
    by (simp add: frame_counter_line_def ex_storage_defs)
  have c: "unat (strtoul ex_env (val ?info)) < 2 ^ 32"
    by (simp add: ex_storage_defs)
  have "\<exists>st'. supp_storage_load_lines ex_env (ex_supp [], replicate 7 0) (?pre @ ?info # ?post) = Inr st'"
    by (simp add: ex_storage_defs)
  then obtain st' where e: "supp_storage_load_lines ex_env (ex_supp [], replicate 7 0) (?pre @ ?info # ?post) = Inr st'"
    by blast
  from supp_storage_load_frame_counter [OF a b e refl c]
  have "unat (frame_counter (gtks (fst st') ! unat (5 :: 32 word))) = 200007"
    by (simp add: ex_storage_defs)
  with a b c e show ?thesis
    by auto
qed

section \<open>6LoWPAN reassembly: the hole list\<close>

lemma loop_no_overlap:
  "\<forall>h \<in> set hs. ff \<ge> hole_end h \<or> fe \<le> hole_first h \<Longrightarrow>
   lowpan_reasm_update_loop ff fe freed hs = Inr ([], hs)"
  by (induction hs arbitrary: freed) auto

lemma loop_one_overlap:
  assumes "\<forall>x \<in> set xs \<union> set ys. ff \<ge> hole_end x \<or> fe \<le> hole_first x"
    and "\<not> (ff \<ge> hole_end h \<or> fe \<le> hole_first h)"
    and "freed \<longrightarrow> xs \<noteq> []"
  shows "lowpan_reasm_update_loop ff fe freed (xs @ h # ys) =
     Inr ((if fe < hole_end h then [\<lparr>hole_first = fe, hole_end = hole_end h\<rparr>] else [])
          @ (if ff > hole_first h then [\<lparr>hole_first = hole_first h, hole_end = ff\<rparr>] else []),
          xs @ ys)"
  using assms
proof (induction xs arbitrary: freed)
  case Nil
  then have "lowpan_reasm_update_loop ff fe True ys = Inr ([], ys)"
    by (intro loop_no_overlap) simp
  with Nil show ?case by simp
next
  case (Cons x xs)
  then have "lowpan_reasm_update_loop ff fe False (xs @ h # ys) =
     Inr ((if fe < hole_end h then [\<lparr>hole_first = fe, hole_end = hole_end h\<rparr>] else [])
          @ (if ff > hole_first h then [\<lparr>hole_first = hole_first h, hole_end = ff\<rparr>] else []),
          xs @ ys)"
    by simp
  moreover have "ff \<ge> hole_end x \<or> fe \<le> hole_first x"
    using Cons.prems(1) by simp
  ultimately show ?case by simp
qed

lemma holes_range_simps [simp]:
  "holes_range [] = {}"
  "holes_range (h # hs) = hole_range h \<union> holes_range hs"
  "holes_range (xs @ ys) = holes_range xs \<union> holes_range ys"
  by (auto simp: holes_range_def)

lemma loop_Cons_keep:
  "ff \<ge> hole_end h \<or> fe \<le> hole_first h \<Longrightarrow>
   lowpan_reasm_update_loop ff fe freed (h # hs) = Inr (added, kept) \<Longrightarrow>
   \<exists>k. lowpan_reasm_update_loop ff fe False hs = Inr (added, k) \<and> kept = h # k"
  by (cases "lowpan_reasm_update_loop ff fe False hs") auto

lemma loop_Cons_remove:
  "\<not> (ff \<ge> hole_end h \<or> fe \<le> hole_first h) \<Longrightarrow>
   lowpan_reasm_update_loop ff fe freed (h # hs) = Inr (added, kept) \<Longrightarrow>
   \<not> freed \<and> (\<exists>a. lowpan_reasm_update_loop ff fe True hs = Inr (a, kept) \<and>
      added = a @ split_hole ff fe h)"
  by (cases "lowpan_reasm_update_loop ff fe True hs"; cases freed) (auto simp: split_hole_def)

lemma split_hole_range:
  "\<not> (ff \<ge> hole_end h \<or> fe \<le> hole_first h) \<Longrightarrow> ff \<le> fe \<Longrightarrow>
   holes_range (split_hole ff fe h) = hole_range h - {ff ..< fe}"
  by (auto simp: split_hole_def hole_range_def)

lemma keep_hole_range:
  "ff \<ge> hole_end h \<or> fe \<le> hole_first h \<Longrightarrow> hole_range h - {ff ..< fe} = hole_range h"
  by (auto simp: hole_range_def)

lemma loop_range:
  "lowpan_reasm_update_loop ff fe freed hs = Inr (added, kept) \<Longrightarrow> ff \<le> fe \<Longrightarrow>
   holes_range (added @ kept) = holes_range hs - {ff ..< fe}"
proof (induction hs arbitrary: freed added kept)
  case Nil
  then show ?case by simp
next
  case (Cons h hs)
  show ?case
  proof (cases "ff \<ge> hole_end h \<or> fe \<le> hole_first h")
    case True
    from loop_Cons_keep [OF True Cons.prems(1)]
    obtain k where r: "lowpan_reasm_update_loop ff fe False hs = Inr (added, k)"
      and e: "kept = h # k"
      by blast
    from Cons.IH [OF r Cons.prems(2)] have "holes_range (added @ k) = holes_range hs - {ff ..< fe}" .
    then have "holes_range added \<union> holes_range k = holes_range hs - {ff ..< fe}"
      by simp
    then have "holes_range added \<union> (hole_range h \<union> holes_range k) =
        (hole_range h - {ff ..< fe}) \<union> (holes_range hs - {ff ..< fe})"
      unfolding keep_hole_range [OF True] by blast
    then show ?thesis
      unfolding e by (simp add: Un_Diff)
  next
    case False
    from loop_Cons_remove [OF False Cons.prems(1)]
    obtain a where r: "lowpan_reasm_update_loop ff fe True hs = Inr (a, kept)"
      and e: "added = a @ split_hole ff fe h"
      by blast
    from Cons.IH [OF r Cons.prems(2)] have "holes_range (a @ kept) = holes_range hs - {ff ..< fe}" .
    then have "holes_range a \<union> holes_range kept = holes_range hs - {ff ..< fe}"
      by simp
    then have "holes_range a \<union> holes_range (split_hole ff fe h) \<union> holes_range kept =
        (hole_range h - {ff ..< fe}) \<union> (holes_range hs - {ff ..< fe})"
      unfolding split_hole_range [OF False Cons.prems(2)] by blast
    then show ?thesis
      unfolding e by (simp add: Un_Diff Un_assoc)
  qed
qed

lemma holes_disjoint_Cons:
  "holes_disjoint (h # hs) = (hole_range h \<inter> holes_range hs = {} \<and> holes_disjoint hs)"
  by (auto simp: holes_disjoint_def holes_range_def)

lemma holes_disjoint_append:
  "holes_disjoint (xs @ ys) =
     (holes_disjoint xs \<and> holes_disjoint ys \<and> holes_range xs \<inter> holes_range ys = {})"
  by (auto simp: holes_disjoint_def holes_range_def sorted_wrt_append)

lemma holes_disjoint_Nil [simp]: "holes_disjoint []"
  by (simp add: holes_disjoint_def)

lemma split_hole_disjoint:
  "ff \<le> fe \<Longrightarrow> holes_disjoint (split_hole ff fe h)"
  by (auto simp: split_hole_def holes_disjoint_def hole_range_def)

lemma loop_disjoint:
  "lowpan_reasm_update_loop ff fe freed hs = Inr (added, kept) \<Longrightarrow> ff \<le> fe \<Longrightarrow>
   holes_disjoint hs \<Longrightarrow> holes_disjoint (added @ kept)"
proof (induction hs arbitrary: freed added kept)
  case Nil
  then show ?case by simp
next
  case (Cons h hs)
  from Cons.prems(3) have d: "hole_range h \<inter> holes_range hs = {}" "holes_disjoint hs"
    by (simp_all add: holes_disjoint_Cons)
  show ?case
  proof (cases "ff \<ge> hole_end h \<or> fe \<le> hole_first h")
    case True
    from loop_Cons_keep [OF True Cons.prems(1)]
    obtain k where r: "lowpan_reasm_update_loop ff fe False hs = Inr (added, k)"
      and e: "kept = h # k"
      by blast
    from Cons.IH [OF r Cons.prems(2) d(2)]
    have i: "holes_disjoint added" "holes_disjoint k" "holes_range added \<inter> holes_range k = {}"
      by (simp_all add: holes_disjoint_append)
    from loop_range [OF r Cons.prems(2)]
    have s: "holes_range added \<union> holes_range k = holes_range hs - {ff ..< fe}"
      by simp
    have "hole_range h \<inter> holes_range k = {}" "holes_range added \<inter> hole_range h = {}"
      using s d(1) by blast+
    with i show ?thesis
      unfolding e by (simp add: holes_disjoint_append holes_disjoint_Cons Int_Un_distrib)
  next
    case False
    from loop_Cons_remove [OF False Cons.prems(1)]
    obtain a where r: "lowpan_reasm_update_loop ff fe True hs = Inr (a, kept)"
      and e: "added = a @ split_hole ff fe h"
      by blast
    from Cons.IH [OF r Cons.prems(2) d(2)]
    have i: "holes_disjoint a" "holes_disjoint kept" "holes_range a \<inter> holes_range kept = {}"
      by (simp_all add: holes_disjoint_append)
    from loop_range [OF r Cons.prems(2)]
    have s: "holes_range a \<union> holes_range kept = holes_range hs - {ff ..< fe}"
      by simp
    have t: "holes_range (split_hole ff fe h) \<subseteq> hole_range h"
      unfolding split_hole_range [OF False Cons.prems(2)] by blast
    have "holes_range (split_hole ff fe h) \<inter> holes_range kept = {}"
      "holes_range a \<inter> holes_range (split_hole ff fe h) = {}"
      using s t d(1) by blast+
    with i split_hole_disjoint [OF Cons.prems(2), of h] show ?thesis
      unfolding e by (simp add: holes_disjoint_append Int_Un_distrib)
  qed
qed

lemma split_hole_end:
  "\<not> (ff \<ge> hole_end h \<or> fe \<le> hole_first h) \<Longrightarrow> x \<in> set (split_hole ff fe h) \<Longrightarrow>
   hole_end x \<le> hole_end h"
  by (auto simp: split_hole_def split: if_splits)

lemma loop_end:
  "lowpan_reasm_update_loop ff fe freed hs = Inr (added, kept) \<Longrightarrow>
   \<forall>h \<in> set hs. hole_end h \<le> l \<Longrightarrow> \<forall>h \<in> set (added @ kept). hole_end h \<le> l"
proof (induction hs arbitrary: freed added kept)
  case Nil
  then show ?case by simp
next
  case (Cons h hs)
  from Cons.prems(2) have b: "hole_end h \<le> l" "\<forall>h \<in> set hs. hole_end h \<le> l"
    by simp_all
  show ?case
  proof (cases "ff \<ge> hole_end h \<or> fe \<le> hole_first h")
    case True
    from loop_Cons_keep [OF True Cons.prems(1)]
    obtain k where r: "lowpan_reasm_update_loop ff fe False hs = Inr (added, k)"
      and e: "kept = h # k"
      by blast
    from Cons.IH [OF r b(2)] b(1) show ?thesis
      unfolding e by auto
  next
    case False
    from loop_Cons_remove [OF False Cons.prems(1)]
    obtain a where r: "lowpan_reasm_update_loop ff fe True hs = Inr (a, kept)"
      and e: "added = a @ split_hole ff fe h"
      by blast
    from Cons.IH [OF r b(2)] b(1) split_hole_end [OF False] show ?thesis
      unfolding e by fastforce
  qed
qed

lemma update_cases:
  assumes "lowpan_reasm_update reasm frag offset = Inr (r, reasm')"
  shows "r = - EINVAL \<and> reasm' = reasm \<or>
     r = 0 \<and> unat offset * 8 + length frag \<le> length (buf reasm) \<and>
     (unat offset * 8 + length frag) mod 65536 \<le> len reasm \<and>
     (\<exists>added kept.
        lowpan_reasm_update_loop (unat offset * 8) ((unat offset * 8 + length frag) mod 65536)
          False (holes reasm) = Inr (added, kept) \<and>
        reasm' = reasm\<lparr>holes := added @ kept,
                        buf := take (unat offset * 8) (buf reasm) @ frag
                               @ drop (unat offset * 8 + length frag) (buf reasm)\<rparr>)"
  using assms
  by (auto simp: lowpan_reasm_update_def Let_def split: if_splits sum.splits)

lemma reasm_inv_update:
  assumes "reasm_inv reasm" and "lowpan_reasm_update reasm frag offset = Inr (r, reasm')"
  shows "reasm_inv reasm'"
proof -
  from update_cases [OF assms(2)] show ?thesis
  proof (elim disjE conjE exE)
    assume "reasm' = reasm"
    with assms(1) show ?thesis by simp
  next
    fix added kept
    let ?ff = "unat offset * 8"
    assume b: "?ff + length frag \<le> length (buf reasm)"
      and l: "lowpan_reasm_update_loop ?ff ((?ff + length frag) mod 65536) False (holes reasm)
        = Inr (added, kept)"
      and e: "reasm' = reasm\<lparr>holes := added @ kept,
                        buf := take ?ff (buf reasm) @ frag @ drop (?ff + length frag) (buf reasm)\<rparr>"
    from assms(1) have i: "length (buf reasm) = len reasm" "len reasm < 65536"
      "\<forall>h \<in> set (holes reasm). hole_end h \<le> len reasm" "holes_disjoint (holes reasm)"
      by (simp_all add: reasm_inv_def)
    from b i have m: "(?ff + length frag) mod 65536 = ?ff + length frag"
      by simp
    have "holes_disjoint (added @ kept)"
      using loop_disjoint [OF l _ i(4)] m by simp
    moreover have "\<forall>h \<in> set (added @ kept). hole_end h \<le> len reasm"
      using loop_end [OF l i(3)] .
    ultimately show ?thesis
      using i b unfolding e by (simp add: reasm_inv_def)
  qed
qed

lemma reasm_inv_new: "reasm_inv (lowpan_reasm_new s d t l)"
proof -
  have "unat l < 65536"
    using unsigned_less [of l] by simp
  then show ?thesis
    by (simp add: reasm_inv_def lowpan_reasm_new_def holes_disjoint_def)
qed

text \<open>
  The loop is undefined on a fragment that overlaps two holes which are neighbours in the
  list. A fresh context of 24 bytes that has received the bytes 8 to 15 has the holes from
  16 to 24 and from 0 to 8; a fragment with all 24 bytes then removes both, the second
  through the freed first.
\<close>

lemma lowpan_reasm_feed_use_after_free:
  "lowpan_reasm_feed (lowpan_reasm_new [] [] 0 24) [(1, replicate 8 0)]
     = Inr (0, (lowpan_reasm_new [] [] 0 24)
                 \<lparr>holes := [\<lparr>hole_first = 16, hole_end = 24\<rparr>, \<lparr>hole_first = 0, hole_end = 8\<rparr>]\<rparr>) \<and>
   lowpan_reasm_feed (lowpan_reasm_new [] [] 0 24) [(1, replicate 8 0), (0, replicate 24 0)]
     = Inl USE_AFTER_FREE"
  by (simp add: lowpan_reasm_new_def lowpan_reasm_update_def flip: replicate_add)



lemma zero_length_loop:
  assumes "holes_disjoint hs"
  shows "lowpan_reasm_update_loop ff ff False hs = Inr ([], hs) \<or>
     (\<exists>xs h ys. hs = xs @ h # ys \<and> hole_first h < ff \<and> ff < hole_end h \<and>
        lowpan_reasm_update_loop ff ff False hs =
          Inr ([\<lparr>hole_first = ff, hole_end = hole_end h\<rparr>, \<lparr>hole_first = hole_first h, hole_end = ff\<rparr>],
               xs @ ys))"
proof (cases "\<forall>h \<in> set hs. ff \<ge> hole_end h \<or> ff \<le> hole_first h")
  case True
  then show ?thesis by (simp add: loop_no_overlap)
next
  case False
  then obtain h where h: "h \<in> set hs" "hole_first h < ff" "ff < hole_end h"
    by auto
  then obtain xs ys where s: "hs = xs @ h # ys"
    by (auto dest: split_list)
  from assms have d: "holes_range xs \<inter> hole_range h = {}" "hole_range h \<inter> holes_range ys = {}"
    unfolding s by (auto simp: holes_disjoint_append holes_disjoint_Cons)
  have "ff \<in> hole_range h"
    using h by (simp add: hole_range_def)
  with d have n: "ff \<notin> holes_range xs" "ff \<notin> holes_range ys"
    by blast+
  have o: "\<forall>x \<in> set xs \<union> set ys. ff \<ge> hole_end x \<or> ff \<le> hole_first x"
  proof
    fix x assume x: "x \<in> set xs \<union> set ys"
    show "ff \<ge> hole_end x \<or> ff \<le> hole_first x"
    proof (rule ccontr)
      assume "\<not> ?thesis"
      then have "ff \<in> hole_range x" by (simp add: hole_range_def)
      with x n show False by (auto simp: holes_range_def)
    qed
  qed
  have "lowpan_reasm_update_loop ff ff False (xs @ h # ys) =
      Inr ([\<lparr>hole_first = ff, hole_end = hole_end h\<rparr>, \<lparr>hole_first = hole_first h, hole_end = ff\<rparr>],
           xs @ ys)"
    using loop_one_overlap [OF o, of h False] h by simp
  with s h show ?thesis by blast
qed

text \<open>
  Claim C10. In a context that satisfies the invariant (no two holes overlap), a fragment
  of length zero at an offset with \<open>offset * 8 \<le> len\<close> is accepted with return value 0; the
  buffer is unchanged; the hole list is unchanged or one hole that strictly contains the
  offset is replaced by its two parts, so that the bytes covered by the holes are the same;
  and a hole list that was not empty is not empty afterwards.
\<close>

theorem lowpan_reasm_update_zero_length:
  assumes "reasm_inv reasm" and "unat offset * 8 \<le> len reasm"
  shows "\<exists>hs. lowpan_reasm_update reasm [] offset = Inr (0, reasm\<lparr>holes := hs\<rparr>) \<and>
      buf (reasm\<lparr>holes := hs\<rparr>) = buf reasm \<and>
      holes_range hs = holes_range (holes reasm) \<and>
      (holes reasm \<noteq> [] \<longrightarrow> hs \<noteq> []) \<and>
      (hs = holes reasm \<or>
       (\<exists>xs h ys. holes reasm = xs @ h # ys \<and>
          hole_first h < unat offset * 8 \<and> unat offset * 8 < hole_end h \<and>
          hs = [\<lparr>hole_first = unat offset * 8, hole_end = hole_end h\<rparr>,
                \<lparr>hole_first = hole_first h, hole_end = unat offset * 8\<rparr>] @ xs @ ys))"
proof -
  let ?ff = "unat offset * 8"
  from assms(1) have i: "length (buf reasm) = len reasm" "len reasm < 65536"
    "holes_disjoint (holes reasm)"
    by (simp_all add: reasm_inv_def)
  from assms(2) i have m: "?ff mod 65536 = ?ff"
    by simp
  have u: "lowpan_reasm_update reasm [] offset = Inr (0, reasm\<lparr>holes := added @ kept\<rparr>)"
    if "lowpan_reasm_update_loop ?ff ?ff False (holes reasm) = Inr (added, kept)" for added kept
    using that assms(2) i by (simp add: lowpan_reasm_update_def Let_def m)
  from zero_length_loop [OF i(3), of ?ff] show ?thesis
  proof (elim disjE exE conjE)
    assume l: "lowpan_reasm_update_loop ?ff ?ff False (holes reasm) = Inr ([], holes reasm)"
    show ?thesis
      using u [OF l] by (intro exI [of _ "holes reasm"]) simp
  next
    fix xs h ys
    assume s: "holes reasm = xs @ h # ys" and h: "hole_first h < ?ff" "?ff < hole_end h"
      and l: "lowpan_reasm_update_loop ?ff ?ff False (holes reasm) =
        Inr ([\<lparr>hole_first = ?ff, hole_end = hole_end h\<rparr>, \<lparr>hole_first = hole_first h, hole_end = ?ff\<rparr>],
             xs @ ys)"
    let ?hs = "[\<lparr>hole_first = ?ff, hole_end = hole_end h\<rparr>, \<lparr>hole_first = hole_first h, hole_end = ?ff\<rparr>]
        @ xs @ ys"
    have r: "holes_range ?hs = holes_range (holes reasm)"
      using loop_range [OF l] by simp
    show ?thesis
      using u [OF l] r s h by (intro exI [of _ ?hs]) auto
  qed
qed


theorem lowpan_reasm_update_zero_length_witness:
  "reasm_inv (lowpan_reasm_new [] [] 0 16) \<and>
   unat (1 :: 8 word) * 8 \<le> len (lowpan_reasm_new [] [] 0 16) \<and>
   (\<exists>hs. lowpan_reasm_update (lowpan_reasm_new [] [] 0 16) [] 1
           = Inr (0, (lowpan_reasm_new [] [] 0 16)\<lparr>holes := hs\<rparr>) \<and>
         hs \<noteq> [] \<and> holes_range hs = {0 ..< 16})"
proof -
  have a: "unat (1 :: 8 word) * 8 \<le> len (lowpan_reasm_new [] [] 0 16)"
    by (simp add: lowpan_reasm_new_def)
  have h: "holes (lowpan_reasm_new [] [] 0 16) \<noteq> []"
    "holes_range (holes (lowpan_reasm_new [] [] 0 16)) = {0 ..< 16}"
    by (simp_all add: lowpan_reasm_new_def holes_range_def hole_range_def)
  from lowpan_reasm_update_zero_length [OF reasm_inv_new a] h
  have "\<exists>hs. lowpan_reasm_update (lowpan_reasm_new [] [] 0 16) [] 1
           = Inr (0, (lowpan_reasm_new [] [] 0 16)\<lparr>holes := hs\<rparr>) \<and>
         hs \<noteq> [] \<and> holes_range hs = {0 ..< 16}"
    by metis
  with reasm_inv_new a show ?thesis by blast
qed

section \<open>6LoWPAN reassembly: the round trip\<close>

lemma chunks_bounds:
  "c \<in> set (chunks pos ns) \<Longrightarrow> pos \<le> fst c \<and> fst c + snd c \<le> pos + sum_list ns"
  by (induction ns arbitrary: pos) fastforce+

lemma chunks_sorted: "sorted_wrt (\<lambda>a b. fst a + snd a \<le> fst b) (chunks pos ns)"
  by (induction ns arbitrary: pos) (auto dest: chunks_bounds)

lemma chunks_covered: "covered (set (chunks pos ns)) = {pos ..< pos + sum_list ns}"
  by (induction ns arbitrary: pos) (auto simp: covered_def)

lemma chunks_valid:
  "valid_sizes ns \<Longrightarrow> pos mod 8 = 0 \<Longrightarrow> c \<in> set (chunks pos ns) \<Longrightarrow>
   fst c mod 8 = 0 \<and> (snd c mod 8 = 0 \<or> fst c + snd c = pos + sum_list ns)"
proof (induction ns arbitrary: pos rule: valid_sizes.induct)
  case 1
  then show ?case by simp
next
  case (2 n)
  then show ?case by auto
next
  case (3 n m ns)
  from "3.prems"(1) have v: "n mod 8 = 0" "valid_sizes (m # ns)"
    by simp_all
  from "3.prems"(3) consider "c = (pos, n)" | "c \<in> set (chunks (pos + n) (m # ns))"
    by auto
  then show ?case
  proof cases
    case 1
    with v "3.prems"(2) show ?thesis by simp
  next
    case 2
    have "(pos + n) mod 8 = 0"
      using v(1) "3.prems"(2) by presburger
    from "3.IH" [OF v(2) this 2] show ?thesis
      by (simp add: add.assoc)
  qed
qed

lemma chunks_end:
  "c \<in> set (chunks pos ns) \<Longrightarrow>
   fst c + snd c \<in> insert (pos + sum_list ns) (fst ` set (chunks pos ns))"
proof (induction ns arbitrary: pos)
  case Nil
  then show ?case by simp
next
  case (Cons n ns)
  show ?case
  proof (cases "c = (pos, n)")
    case True
    show ?thesis
      by (cases ns) (simp_all add: True)
  next
    case False
    with Cons.prems have "c \<in> set (chunks (pos + n) ns)"
      by simp
    from Cons.IH [OF this] show ?thesis
      by (auto simp: add.assoc)
  qed
qed

lemma chunk_cuts:
  assumes "c \<in> set (chunks 0 ns)"
  shows "fst c \<in> cuts ns" "fst c + snd c \<in> cuts ns"
  using assms chunks_end [OF assms] by (auto simp: cuts_def)

lemma sorted_wrt_total:
  "sorted_wrt P xs \<Longrightarrow> x \<in> set xs \<Longrightarrow> y \<in> set xs \<Longrightarrow> x \<noteq> y \<Longrightarrow> P x y \<or> P y x"
  by (induction xs) auto

lemma cut_outside:
  assumes c: "c \<in> set (chunks 0 ns)" and q: "q \<in> cuts ns"
  shows "q \<le> fst c \<or> fst c + snd c \<le> q"
proof -
  from q consider "q = sum_list ns" | d where "d \<in> set (chunks 0 ns)" "q = fst d"
    by (auto simp: cuts_def)
  then show ?thesis
  proof cases
    case 1
    with chunks_bounds [OF c] show ?thesis by simp
  next
    case 2
    show ?thesis
    proof (cases "c = d")
      case True
      with 2 show ?thesis by simp
    next
      case False
      from sorted_wrt_total [OF chunks_sorted c 2(1) False] 2(2) show ?thesis
        by auto
    qed
  qed
qed

lemma fragment_of_offset:
  "p mod 8 = 0 \<Longrightarrow> p div 8 < 256 \<Longrightarrow> unat (fst (fragment_of data (p, n))) * 8 = p"
proof -
  assume a: "p mod 8 = 0" "p div 8 < 256"
  have "unat (word_of_nat (p div 8) :: 8 word) = p div 8"
    using a(2) by (simp add: unat_of_nat)
  with a(1) show ?thesis
    by (simp add: fragment_of_def) presburger
qed

lemma fragment_of_payload:
  "p + n \<le> length data \<Longrightarrow> length (snd (fragment_of data (p, n))) = n"
  "p + n \<le> length data \<Longrightarrow> j < n \<Longrightarrow> snd (fragment_of data (p, n)) ! j = data ! (p + j)"
  by (simp_all add: fragment_of_def)

lemma tiled_loop:
  assumes t: "holes_tiled B hs"
    and o: "\<forall>q \<in> B. q \<le> p \<or> p + n \<le> q"
  shows "lowpan_reasm_update_loop p (p + n) False hs = Inr ([], hs) \<or>
     (\<exists>xs h ys. hs = xs @ h # ys \<and> hole_first h \<le> p \<and> p + n \<le> hole_end h \<and>
        lowpan_reasm_update_loop p (p + n) False hs = Inr (split_hole p (p + n) h, xs @ ys))"
proof (cases "\<forall>h \<in> set hs. p \<ge> hole_end h \<or> p + n \<le> hole_first h")
  case True
  then show ?thesis by (simp add: loop_no_overlap)
next
  case False
  then obtain h where h: "h \<in> set hs" "p < hole_end h" "hole_first h < p + n"
    by (auto simp: not_le)
  from t have e: "\<forall>h \<in> set hs. hole_first h \<in> B \<and> hole_end h \<in> B"
    and d: "holes_disjoint hs"
    by (simp_all add: holes_tiled_def)
  have inside: "hole_first x \<le> p \<and> p + n \<le> hole_end x"
    if "x \<in> set hs" "p < hole_end x" "hole_first x < p + n" for x
  proof -
    from e that(1) have "hole_first x \<in> B" "hole_end x \<in> B"
      by auto
    with o have "hole_first x \<le> p \<or> p + n \<le> hole_first x" "hole_end x \<le> p \<or> p + n \<le> hole_end x"
      by auto
    with that show ?thesis by auto
  qed
  obtain xs ys where s: "hs = xs @ h # ys"
    using h(1) by (auto dest: split_list)
  from d have dj: "holes_range xs \<inter> hole_range h = {}" "hole_range h \<inter> holes_range ys = {}"
    unfolding s by (auto simp: holes_disjoint_append holes_disjoint_Cons)
  from inside [OF h] h have ph: "p \<in> hole_range h"
    by (simp add: hole_range_def)
  have x: "\<forall>x \<in> set xs \<union> set ys. p \<ge> hole_end x \<or> p + n \<le> hole_first x"
  proof
    fix x assume x: "x \<in> set xs \<union> set ys"
    show "p \<ge> hole_end x \<or> p + n \<le> hole_first x"
    proof (rule ccontr)
      assume "\<not> ?thesis"
      then have a: "p < hole_end x" "hole_first x < p + n"
        by auto
      from x have "x \<in> set hs"
        unfolding s by auto
      from inside [OF this a] a have "p \<in> hole_range x"
        by (simp add: hole_range_def)
      with x ph dj show False
        by (auto simp: holes_range_def)
    qed
  qed
  have "lowpan_reasm_update_loop p (p + n) False (xs @ h # ys)
      = Inr (split_hole p (p + n) h, xs @ ys)"
    using loop_one_overlap [OF x, of h False] h by (simp add: split_hole_def)
  with s inside [OF h] show ?thesis by blast
qed

lemma split_hole_tiled:
  assumes "hole_first h \<in> B" "hole_end h \<in> B" "p \<in> B" "p + n \<in> B" "a \<in> set (split_hole p (p + n) h)"
  shows "hole_first a < hole_end a \<and> hole_first a \<in> B \<and> hole_end a \<in> B"
  using assms by (auto simp: split_hole_def split: if_splits)

lemma covered_insert: "covered (insert c D) = {fst c ..< fst c + snd c} \<union> covered D"
  by (simp add: covered_def)

lemma progress_step:
  assumes pr: "reasm_progress data B D reasm"
    and l: "length data < 65536"
    and c: "p mod 8 = 0" "p div 8 < 256" "p + n \<le> length data"
      "n mod 8 = 0 \<or> p + n = length data"
    and q: "p \<in> B" "p + n \<in> B" "\<forall>q \<in> B. q \<le> p \<or> p + n \<le> q"
  shows "\<exists>reasm'. lowpan_reasm_update reasm (snd (fragment_of data (p, n)))
                    (fst (fragment_of data (p, n))) = Inr (0, reasm') \<and>
                 reasm_progress data B (insert (p, n) D) reasm'"
proof -
  let ?frag = "snd (fragment_of data (p, n))"
  let ?off = "fst (fragment_of data (p, n))"
  from pr have i: "len reasm = length data" "length (buf reasm) = length data"
    "holes_tiled B (holes reasm)"
    "holes_range (holes reasm) = {0 ..< length data} - covered D"
    "\<forall>i \<in> covered D. buf reasm ! i = data ! i"
    by (simp_all add: reasm_progress_def)
  from i(3) have t: "\<forall>h \<in> set (holes reasm). hole_first h < hole_end h \<and> hole_first h \<in> B \<and> hole_end h \<in> B"
    "holes_disjoint (holes reasm)"
    by (simp_all add: holes_tiled_def)
  have o: "unat ?off * 8 = p"
    using c(1,2) by (rule fragment_of_offset)
  have n: "length ?frag = n"
    using c(3) by (rule fragment_of_payload)
  have m: "(p + n) mod 65536 = p + n"
    using c(3) l by simp
  have "\<exists>added kept. lowpan_reasm_update_loop p (p + n) False (holes reasm) = Inr (added, kept) \<and>
      (\<forall>a \<in> set (added @ kept). hole_first a < hole_end a \<and> hole_first a \<in> B \<and> hole_end a \<in> B)"
    using tiled_loop [OF i(3) q(3)]
  proof (elim disjE exE conjE)
    assume "lowpan_reasm_update_loop p (p + n) False (holes reasm) = Inr ([], holes reasm)"
    with t(1) show ?thesis by simp
  next
    fix xs h ys
    assume e: "holes reasm = xs @ h # ys"
      and lp: "lowpan_reasm_update_loop p (p + n) False (holes reasm)
        = Inr (split_hole p (p + n) h, xs @ ys)"
    from t(1) have h: "hole_first h \<in> B" "hole_end h \<in> B"
      and r: "\<forall>a \<in> set (xs @ ys). hole_first a < hole_end a \<and> hole_first a \<in> B \<and> hole_end a \<in> B"
      unfolding e by auto
    have "\<forall>a \<in> set (split_hole p (p + n) h).
        hole_first a < hole_end a \<and> hole_first a \<in> B \<and> hole_end a \<in> B"
      using split_hole_tiled [OF h q(1,2)] by blast
    with r have "\<forall>a \<in> set (split_hole p (p + n) h @ xs @ ys).
        hole_first a < hole_end a \<and> hole_first a \<in> B \<and> hole_end a \<in> B"
      by auto
    with lp show ?thesis by blast
  qed
  then obtain added kept
    where lp: "lowpan_reasm_update_loop p (p + n) False (holes reasm) = Inr (added, kept)"
      and el: "\<forall>a \<in> set (added @ kept). hole_first a < hole_end a \<and> hole_first a \<in> B \<and> hole_end a \<in> B"
    by blast
  let ?r = "reasm\<lparr>holes := added @ kept,
                  buf := take p (buf reasm) @ ?frag @ drop (p + n) (buf reasm)\<rparr>"
  have f: "\<not> (p + n \<noteq> len reasm \<and> n mod 8 \<noteq> 0)"
    using c(4) i(1) by auto
  have u: "lowpan_reasm_update reasm ?frag ?off = Inr (0, ?r)"
    using c(3) i(1,2) lp f by (auto simp add: lowpan_reasm_update_def Let_def o n m)
  have "holes_disjoint (added @ kept)"
    using loop_disjoint [OF lp _ t(2)] by simp
  with el have s: "holes_tiled B (added @ kept)"
    by (simp add: holes_tiled_def)
  have r: "holes_range (added @ kept) = {0 ..< length data} - covered (insert (p, n) D)"
    using loop_range [OF lp] i(4) by (auto simp: covered_insert)
  have b: "(take p (buf reasm) @ ?frag @ drop (p + n) (buf reasm)) ! j = data ! j"
    if j: "j \<in> covered (insert (p, n) D)" for j
  proof (cases "j \<in> {p ..< p + n}")
    case True
    then have "\<not> j < p" "j - p < n" by auto
    then have "(take p (buf reasm) @ ?frag @ drop (p + n) (buf reasm)) ! j = ?frag ! (j - p)"
      using c(3) i(2) n by (simp add: nth_append)
    also have "\<dots> = data ! (p + (j - p))"
      using True c(3) by (intro fragment_of_payload) auto
    finally show ?thesis using True by simp
  next
    case False
    with j have jd: "j \<in> covered D" by (auto simp add: covered_insert)
    have "(take p (buf reasm) @ ?frag @ drop (p + n) (buf reasm)) ! j = buf reasm ! j"
    proof (cases "j < p")
      case True
      then show ?thesis using c(3) i(2) by (simp add: nth_append)
    next
      case ge: False
      with False have "\<not> j < p" "\<not> j - p < n" "p + n + (j - p - n) = j" by auto
      then show ?thesis
        using c(3) i(2) n by (simp add: nth_append)
    qed
    with i(5) jd show ?thesis by simp
  qed
  have "reasm_progress data B (insert (p, n) D) ?r"
    using i(1,2) c(3) n s r b by (simp add: reasm_progress_def)
  with u show ?thesis by blast
qed

lemma feed_progress:
  assumes l: "length data < 65536" and v: "valid_split (length data) ns"
  shows "reasm_progress data (cuts ns) D reasm \<Longrightarrow> set cs \<subseteq> set (chunks 0 ns) \<Longrightarrow>
     \<exists>reasm'. lowpan_reasm_feed reasm (map (fragment_of data) cs) = Inr (0, reasm') \<and>
       reasm_progress data (cuts ns) (D \<union> set cs) reasm'"
proof (induction cs arbitrary: reasm D)
  case Nil
  then show ?case by simp
next
  case (Cons c cs)
  obtain p n where c: "c = (p, n)" by (cases c)
  from v have vs: "valid_sizes ns" "sum_list ns = length data"
    "\<forall>c \<in> set (chunks 0 ns). fst c div 8 < 256"
    by (simp_all add: valid_split_def)
  from Cons.prems(2) have m: "c \<in> set (chunks 0 ns)" by simp
  from chunks_valid [OF vs(1) _ m] vs(2) c
  have f: "p mod 8 = 0" "n mod 8 = 0 \<or> p + n = length data"
    by simp_all
  from chunks_bounds [OF m] vs(2) c have b: "p + n \<le> length data" by simp
  from vs(3) m c have o: "p div 8 < 256" by auto
  from chunk_cuts [OF m] c have q: "p \<in> cuts ns" "p + n \<in> cuts ns"
    by simp_all
  from cut_outside [OF m] c have q3: "\<forall>q \<in> cuts ns. q \<le> p \<or> p + n \<le> q"
    by simp
  from progress_step [OF Cons.prems(1) l f(1) o b f(2) q q3]
  obtain r1 where u: "lowpan_reasm_update r1' (snd (fragment_of data (p, n)))
        (fst (fragment_of data (p, n))) = Inr (0, r1)"
    and p1: "reasm_progress data (cuts ns) (insert (p, n) D) r1"
    if "r1' = reasm" for r1'
    by blast
  have "\<exists>reasm'. lowpan_reasm_feed r1 (map (fragment_of data) cs) = Inr (0, reasm') \<and>
       reasm_progress data (cuts ns) (insert (p, n) D \<union> set cs) reasm'"
    using Cons.prems(2) p1 by (intro Cons.IH) auto
  then obtain r2 where r2: "lowpan_reasm_feed r1 (map (fragment_of data) cs) = Inr (0, r2)"
    "reasm_progress data (cuts ns) (insert (p, n) D \<union> set cs) r2"
    by blast
  obtain off frag where e: "fragment_of data (p, n) = (off, frag)"
    by (cases "fragment_of data (p, n)")
  have "lowpan_reasm_feed reasm (map (fragment_of data) (c # cs)) = Inr (0, r2)"
    using u [OF refl] r2(1) by (simp add: c e)
  moreover have "insert (p, n) D \<union> set cs = D \<union> set (c # cs)"
    by (auto simp: c)
  ultimately show ?case using r2(2) by auto
qed

lemma progress_new:
  assumes "data \<noteq> []" "length data < 65536" "sum_list ns = length data"
  shows "reasm_progress data (cuts ns) {} (lowpan_reasm_new s d t (word_of_nat (length data)))"
proof -
  have u: "unat (word_of_nat (length data) :: 16 word) = length data"
    using assms(2) by (simp add: unat_of_nat)
  from assms(1,3) obtain n ms where "ns = n # ms"
    by (cases ns) auto
  then have "0 \<in> cuts ns" "length data \<in> cuts ns"
    using assms(3) by (simp_all add: cuts_def)
  with assms(1) u show ?thesis
    by (simp add: reasm_progress_def lowpan_reasm_new_def holes_tiled_def holes_disjoint_def
        holes_range_def hole_range_def covered_def)
qed

lemma progress_complete:
  assumes "reasm_progress data B D reasm" "covered D = {0 ..< length data}"
  shows "holes reasm = [] \<and> buf reasm = data"
proof
  from assms have e: "holes_range (holes reasm) = {}" and s: "holes_tiled B (holes reasm)"
    by (simp_all add: reasm_progress_def)
  show "holes reasm = []"
  proof (cases "holes reasm")
    case Nil
    then show ?thesis .
  next
    case (Cons h hs)
    with s have "hole_first h < hole_end h" by (simp add: holes_tiled_def)
    then have "hole_first h \<in> holes_range (holes reasm)"
      unfolding Cons by (simp add: holes_range_def hole_range_def)
    with e show ?thesis by simp
  qed
  from assms show "buf reasm = data"
    by (intro nth_equalityI) (simp_all add: reasm_progress_def)
qed

lemma update_frame:
  assumes "lowpan_reasm_update reasm frag offset = Inr (r, reasm')"
    and "i < length (buf reasm)"
    and "i < unat offset * 8 \<or> unat offset * 8 + length frag \<le> i"
  shows "buf reasm' ! i = buf reasm ! i"
  using update_cases [OF assms(1)]
proof (elim disjE conjE exE)
  assume "reasm' = reasm"
  then show ?thesis by simp
next
  fix added kept
  let ?ff = "unat offset * 8"
  assume b: "?ff + length frag \<le> length (buf reasm)"
    and e: "reasm' = reasm\<lparr>holes := added @ kept,
                      buf := take ?ff (buf reasm) @ frag @ drop (?ff + length frag) (buf reasm)\<rparr>"
  from assms(3) show ?thesis
  proof
    assume "i < ?ff"
    then show ?thesis using b unfolding e by (simp add: nth_append)
  next
    assume "?ff + length frag \<le> i"
    then have "\<not> i < ?ff" "\<not> i - ?ff < length frag" "?ff + length frag + (i - ?ff - length frag) = i"
      by auto
    then show ?thesis using b unfolding e by (simp add: nth_append)
  qed
qed

text \<open>
  Claim C5, amended. A non-empty datagram of fewer than \<open>2 ^ 16\<close> bytes is split into
  fragments at offsets that are multiples of 8 (only the last fragment may have a length
  that is not a multiple of 8; a fragment may be empty). Feeding the fragments in any order
  to a fresh context makes every call return 0, empties the hole list and leaves the buffer
  equal to the datagram. And a call of \<^verbatim>\<open>lowpan_reasm_update\<close> that returns, for any
  fragment and any context, leaves every byte of the buffer outside the fragment's range
  \<open>offset * 8 \<le> i < offset * 8 + length\<close> as it was.
\<close>

theorem lowpan_reasm_round_trip:
  assumes "data \<noteq> []" and "length data < 65536" and "valid_split (length data) ns"
    and "mset cs = mset (chunks 0 ns)"
  shows "(\<exists>reasm'. lowpan_reasm_feed (lowpan_reasm_new s d t (word_of_nat (length data)))
              (map (fragment_of data) cs) = Inr (0, reasm') \<and>
            holes reasm' = [] \<and> buf reasm' = data) \<and>
     (\<forall>reasm frag offset r reasm' i.
        lowpan_reasm_update reasm frag offset = Inr (r, reasm') \<and> i < length (buf reasm) \<and>
        (i < unat offset * 8 \<or> unat offset * 8 + length frag \<le> i) \<longrightarrow>
        buf reasm' ! i = buf reasm ! i)"
proof
  from assms(3) have sl: "sum_list ns = length data"
    by (simp add: valid_split_def)
  have dc: "set cs = set (chunks 0 ns)"
    using mset_eq_setD [OF assms(4)] .
  from feed_progress [OF assms(2,3) progress_new [OF assms(1,2) sl], of cs s d t]
  obtain reasm' where f: "lowpan_reasm_feed (lowpan_reasm_new s d t (word_of_nat (length data)))
              (map (fragment_of data) cs) = Inr (0, reasm')"
    and p: "reasm_progress data (cuts ns) (set cs) reasm'"
    using dc by auto
  have "covered (set cs) = {0 ..< length data}"
    unfolding dc chunks_covered using sl by simp
  from progress_complete [OF p this] f
  show "\<exists>reasm'. lowpan_reasm_feed (lowpan_reasm_new s d t (word_of_nat (length data)))
              (map (fragment_of data) cs) = Inr (0, reasm') \<and>
            holes reasm' = [] \<and> buf reasm' = data"
    by blast
  show "\<forall>reasm frag offset r reasm' i.
        lowpan_reasm_update reasm frag offset = Inr (r, reasm') \<and> i < length (buf reasm) \<and>
        (i < unat offset * 8 \<or> unat offset * 8 + length frag \<le> i) \<longrightarrow>
        buf reasm' ! i = buf reasm ! i"
    using update_frame by blast
qed

text \<open>
  The claim C5 as stated fails for the empty datagram: the fresh context of length 0 has the
  hole from 0 to 0, which neither the empty list of fragments nor the empty fragment at
  offset 0 removes.
\<close>

theorem lowpan_reasm_round_trip_counterexample:
  "valid_split (length ([] :: 8 word list)) [] \<and>
   lowpan_reasm_feed (lowpan_reasm_new [] [] 0 0) (map (fragment_of []) (chunks 0 []))
     = Inr (0, lowpan_reasm_new [] [] 0 0) \<and>
   valid_split (length ([] :: 8 word list)) [0] \<and>
   lowpan_reasm_feed (lowpan_reasm_new [] [] 0 0) (map (fragment_of []) (chunks 0 [0]))
     = Inr (0, lowpan_reasm_new [] [] 0 0) \<and>
   holes (lowpan_reasm_new [] [] 0 0) = [\<lparr>hole_first = 0, hole_end = 0\<rparr>]"
  by (simp add: valid_split_def lowpan_reasm_new_def lowpan_reasm_update_def fragment_of_def)

theorem lowpan_reasm_round_trip_witness:
  "ex_datagram \<noteq> [] \<and> length ex_datagram < 65536 \<and>
   valid_split (length ex_datagram) [16, 0, 16, 8] \<and>
   mset [(16, 16), (0, 16), (32, 8), (16, 0)] = mset (chunks 0 [16, 0, 16, 8]) \<and>
   (\<exists>reasm'. lowpan_reasm_feed (lowpan_reasm_new [] [] 0 40)
              (map (fragment_of ex_datagram) [(16, 16), (0, 16), (32, 8), (16, 0)]) = Inr (0, reasm') \<and>
            holes reasm' = [] \<and> buf reasm' = ex_datagram)"
proof -
  have a: "ex_datagram \<noteq> []" and b: "length ex_datagram < 65536"
    and l: "length ex_datagram = 40"
    by (simp_all add: ex_datagram_def)
  have c: "valid_split (length ex_datagram) [16, 0, 16, 8]"
    by (simp add: l valid_split_def)
  have d: "mset [(16, 16), (0, 16), (32 :: nat, 8 :: nat), (16, 0)] = mset (chunks 0 [16, 0, 16, 8])"
    by simp
  from lowpan_reasm_round_trip [OF a b c d, of "[]" "[]" 0]
  have "\<exists>reasm'. lowpan_reasm_feed (lowpan_reasm_new [] [] 0 40)
              (map (fragment_of ex_datagram) [(16, 16), (0, 16), (32, 8), (16, 0)]) = Inr (0, reasm') \<and>
            holes reasm' = [] \<and> buf reasm' = ex_datagram"
    by (simp add: l)
  with a b c d show ?thesis by blast
qed

section \<open>The ETX estimator\<close>

lemma ewma_between:
  fixes s c v lo hi :: real
  assumes "0 \<le> s" "s \<le> 1" "lo \<le> c" "c \<le> hi" "lo \<le> v" "v \<le> hi"
  shows "lo \<le> s * (v - c) + c \<and> s * (v - c) + c \<le> hi"
proof (cases "c \<le> v")
  case True
  then have "0 \<le> s * (v - c)" "s * (v - c) \<le> v - c"
    using assms(1,2) mult_right_mono [of s 1 "v - c"] by simp_all
  with assms show ?thesis by simp
next
  case False
  then have "s * (c - v) \<le> c - v" "0 \<le> s * (c - v)"
    using assms(1,2) mult_right_mono [of s 1 "c - v"] by simp_all
  then have "v - c \<le> s * (v - c)" "s * (v - c) \<le> 0"
    by (simp_all add: algebra_simps)
  with assms show ?thesis by simp
qed

lemma raw_etx_range:
  fixes tx ack :: int
  assumes "0 < ack" "ack \<le> tx"
  shows "128 \<le> min (real_of_int tx / real_of_int ack * 128) WS_ETX_MAX"
proof -
  have "real_of_int ack \<le> real_of_int tx" "0 < real_of_int ack"
    using assms by simp_all
  then have "128 \<le> real_of_int tx / real_of_int ack * 128"
    by (simp add: pos_le_divide_eq)
  then show ?thesis by (simp add: WS_ETX_MAX_def)
qed

lemma etx_inv_compute:
  assumes "etx_inv (e, c)" "tx_req_cnt e \<ge> update_min_tx_req_cnt ctx \<or> etx e = None"
  shows "etx_inv (fst (ws_etx_timeout_compute ctx (e\<lparr>timer_compute := None\<rparr>)), True)"
proof -
  let ?raw = "if ack_cnt e \<noteq> 0
      then min (real_of_int (tx_cnt e) / real_of_int (ack_cnt e) * 128) WS_ETX_MAX else WS_ETX_MAX"
  let ?cnt = "if compute_cnt e < 8 then compute_cnt e + 1 else compute_cnt e"
  from assms(1) have i: "0 \<le> ack_cnt e" "ack_cnt e \<le> tx_cnt e" "0 \<le> compute_cnt e"
    "\<forall>v. etx e = Some v \<longrightarrow> 128 \<le> v \<and> v \<le> 1024"
    by (simp_all add: etx_inv_def)
  have r: "128 \<le> ?raw \<and> ?raw \<le> 1024"
    using raw_etx_range [of "ack_cnt e" "tx_cnt e"] i(1,2) by (auto simp: WS_ETX_MAX_def)
  have k: "1 \<le> ?cnt" using i(3) by auto
  then have s: "0 \<le> 1 / real_of_int ?cnt" "1 / real_of_int ?cnt \<le> 1"
    by simp_all
  have n: "128 \<le> ws_ewma_next (etx e) ?raw (1 / real_of_int ?cnt) \<and>
      ws_ewma_next (etx e) ?raw (1 / real_of_int ?cnt) \<le> 1024"
  proof (cases "etx e")
    case None
    with r show ?thesis by (simp add: ws_ewma_next_def)
  next
    case (Some c)
    with i(4) have "128 \<le> c" "c \<le> 1024" by simp_all
    from ewma_between [OF s this] r show ?thesis
      by (simp add: ws_ewma_next_def Some)
  qed
  have e: "fst (ws_etx_timeout_compute ctx (e\<lparr>timer_compute := None\<rparr>)) =
      e\<lparr>timer_compute := None, etx := Some (ws_ewma_next (etx e) ?raw (1 / real_of_int ?cnt)),
        tx_cnt := 0, ack_cnt := 0, tx_req_cnt := 0, compute_cnt := ?cnt,
        timer_compute := Some (update_min_delay_ms ctx),
        timer_outdated := Some (refresh_period_ms ctx)\<rparr>"
    using assms(2) by (auto simp: ws_etx_timeout_compute_def Let_def)
  show ?thesis
    unfolding e etx_inv_def using n k by simp
qed

lemma int_add_Some: "int_add a b = Some c \<Longrightarrow> c = a + b"
  by (simp add: int_add_def split: if_splits)

lemma ws_etx_update_Some:
  assumes "ws_etx_update ctx e n ack = Some e'"
  shows "etx e' = etx e" "compute_cnt e' = compute_cnt e"
    "tx_cnt e' = tx_cnt e + n" "ack_cnt e' = ack_cnt e + (if ack then 1 else 0)"
proof -
  from assms obtain r t a where "int_add (tx_req_cnt e) 1 = Some r"
    and t: "int_add (tx_cnt e) n = Some t"
    and a: "int_add (ack_cnt e) (if ack then 1 else 0) = Some a"
    and e: "e' = (if timer_stopped (timer_compute e)
                  then e\<lparr>tx_req_cnt := r, tx_cnt := t, ack_cnt := a, timer_compute := Some 0\<rparr>
                  else e\<lparr>tx_req_cnt := r, tx_cnt := t, ack_cnt := a\<rparr>)"
    by (auto simp: ws_etx_update_def Let_def split: Option.bind_splits)
  from int_add_Some [OF t] int_add_Some [OF a] e
  show "etx e' = etx e" "compute_cnt e' = compute_cnt e"
    "tx_cnt e' = tx_cnt e + n" "ack_cnt e' = ack_cnt e + (if ack then 1 else 0)"
    by (simp_all split: if_splits)
qed

lemma etx_inv_step:
  assumes "etx_inv s" "etx_event_sound ev" "etx_trace s ev = Some s'"
  shows "etx_inv s'"
proof -
  obtain e c where s: "s = (e, c)" by (cases s)
  obtain ctx a where ev: "ev = (ctx, a)" by (cases ev)
  show ?thesis
  proof (cases a)
    case (UPDATE n ack)
    with assms(3) obtain e' where u: "ws_etx_update ctx e n ack = Some e'" and s': "s' = (e', c)"
      by (auto simp: s ev etx_trace_def)
    from ws_etx_update_Some [OF u] assms(1,2) show ?thesis
      by (auto simp: s s' ev UPDATE etx_inv_def)
  next
    case TIMEOUT_COMPUTE
    show ?thesis
    proof (cases "etx_computes e (ctx, TIMEOUT_COMPUTE)")
      case True
      then have "tx_req_cnt e \<ge> update_min_tx_req_cnt ctx \<or> etx e = None"
        "\<not> timer_stopped (timer_compute e)"
        by simp_all
      with etx_inv_compute [of e c ctx] assms(1,3) show ?thesis
        by (auto simp: s ev TIMEOUT_COMPUTE etx_trace_def)
    next
      case False
      with assms(1,3) show ?thesis
        by (auto simp: s ev TIMEOUT_COMPUTE etx_trace_def etx_inv_def ws_etx_timeout_compute_def
            split: if_splits)
    qed
  next
    case TIMEOUT_OUTDATED
    with assms(1,3) show ?thesis
      by (auto simp: s ev etx_trace_def etx_inv_def ws_etx_timeout_outdated_def split: if_splits)
  next
    case RESET
    with assms(3) show ?thesis
      by (auto simp: s ev etx_trace_def etx_inv_def ws_etx_reset_def ws_etx_init_def)
  qed
qed

lemma etx_inv_history:
  "etx_inv s \<Longrightarrow> list_all etx_event_sound evs \<Longrightarrow> etx_history s evs = Some s' \<Longrightarrow>
   etx_inv s'"
proof (induction evs arbitrary: s)
  case Nil
  then show ?case by simp
next
  case (Cons ev evs)
  from Cons.prems(3) obtain s1 where 1: "etx_trace s ev = Some s1"
    and 2: "etx_history s1 evs = Some s'"
    by (auto split: option.splits)
  from Cons.prems(2) have "etx_event_sound ev" "list_all etx_event_sound evs"
    by simp_all
  from Cons.IH [OF etx_inv_step [OF Cons.prems(1) this(1) 1] this(2) 2] show ?case .
qed

lemma etx_history_run: "etx_history s evs = Some s' \<Longrightarrow> etx_run (fst s) evs = Some (fst s')"
proof (induction evs arbitrary: s)
  case Nil
  then show ?case by simp
next
  case (Cons ev evs)
  from Cons.prems obtain s1 where 1: "etx_trace s ev = Some s1"
    and 2: "etx_history s1 evs = Some s'"
    by (auto split: option.splits)
  from 1 have "etx_step (fst s) ev = Some (fst s1)"
    by (auto simp: etx_trace_def)
  with Cons.IH [OF 2] show ?case by simp
qed

text \<open>
  Claim C4, amended. For every sequence of updates, timer firings and resets on a fresh
  estimator in which no update reports a negative number of transmissions, every
  acknowledged update reports at least one, and no counter overflows its \<^verbatim>\<open>int\<close> (the run
  is defined): the \<^verbatim>\<open>etx\<close> field is NaN as long as no computation has occurred since the
  initialisation or the last reset, and NaN again after a reset; once a computation has
  occurred it is a number between 128 and 1024.
\<close>

theorem ws_etx_range:
  assumes "list_all etx_event_sound evs"
    and "etx_history (ws_etx_fresh, False) evs = Some (e, computed)"
  shows "etx_run ws_etx_fresh evs = Some e \<and>
     (\<not> computed \<longrightarrow> etx e = None) \<and>
     (computed \<longrightarrow> (\<exists>v. etx e = Some v \<and> 128 \<le> v \<and> v \<le> 1024)) \<and>
     etx (ws_etx_reset ctx e) = None"
proof -
  have "etx_inv (ws_etx_fresh, False)"
    by (simp add: etx_inv_def ws_etx_fresh_def ws_etx_init_def)
  from etx_inv_history [OF this assms] have "etx_inv (e, computed)" .
  moreover have "etx_run ws_etx_fresh evs = Some e"
    using etx_history_run [OF assms(2)] by simp
  ultimately show ?thesis
    by (auto simp: etx_inv_def ws_etx_reset_def ws_etx_init_def)
qed

lemmas ex_etx_defs = etx_trace_def ws_etx_fresh_def ws_etx_init_def ws_etx_update_def
  ws_etx_timeout_compute_def timer_stopped_def ex_etx_ctx_def ws_ewma_next_def WS_ETX_MAX_def
  int_add_def INT_MAX_def INT_MIN_def

text \<open>
  The claim C4 as stated (for all inputs) fails: an acknowledged update that reports zero
  transmissions makes the first computation yield the raw value \<open>0 / 1 * 128 = 0\<close>.
\<close>

theorem ws_etx_range_counterexample:
  "etx_history (ws_etx_fresh, False) [(ex_etx_ctx, UPDATE 0 True), (ex_etx_ctx, TIMEOUT_COMPUTE)]
   = Some (ws_etx_fresh\<lparr>etx := Some 0, compute_cnt := 1, timer_compute := Some 60000,
                          timer_outdated := Some 1800000\<rparr>, True)"
  by (simp add: ex_etx_defs)

text \<open>
  Two updates that report \<^verbatim>\<open>INT_MAX\<close> transmissions each overflow \<^verbatim>\<open>tx_cnt\<close>: the run is
  undefined.
\<close>

lemma ws_etx_update_overflow:
  "etx_run ws_etx_fresh [(ex_etx_ctx, UPDATE INT_MAX True), (ex_etx_ctx, UPDATE INT_MAX True)] = None"
  by (simp add: ex_etx_defs)

theorem ws_etx_range_witness:
  "list_all etx_event_sound [(ex_etx_ctx, UPDATE 3 True), (ex_etx_ctx, TIMEOUT_COMPUTE)] \<and>
   etx_history (ws_etx_fresh, False) [(ex_etx_ctx, UPDATE 3 True), (ex_etx_ctx, TIMEOUT_COMPUTE)]
   = Some (ws_etx_fresh\<lparr>etx := Some 384, compute_cnt := 1, timer_compute := Some 60000,
                          timer_outdated := Some 1800000\<rparr>, True) \<and>
   (\<exists>v. etx (ws_etx_fresh\<lparr>etx := Some 384, compute_cnt := 1, timer_compute := Some 60000,
                    timer_outdated := Some 1800000\<rparr>) = Some v \<and> 128 \<le> v \<and> v \<le> 1024)"
proof -
  have a: "list_all etx_event_sound [(ex_etx_ctx, UPDATE 3 True), (ex_etx_ctx, TIMEOUT_COMPUTE)]"
    by simp
  have b: "etx_history (ws_etx_fresh, False) [(ex_etx_ctx, UPDATE 3 True), (ex_etx_ctx, TIMEOUT_COMPUTE)]
   = Some (ws_etx_fresh\<lparr>etx := Some 384, compute_cnt := 1, timer_compute := Some 60000,
                          timer_outdated := Some 1800000\<rparr>, True)"
    by (simp add: ex_etx_defs)
  from ws_etx_range [OF a b] a b show ?thesis by blast
qed

lemma ex_etx_measured_eq:
  "ex_etx_measured = \<lparr>etx = Some 384, tx_cnt = 1, ack_cnt = 1, tx_req_cnt = 1, compute_cnt = 1,
     timer_compute = None, timer_outdated = Some 1800000\<rparr>"
  by (simp add: ex_etx_measured_def ex_etx_defs)

text \<open>
  Claim C6, amended. When the compute timer fires and the epoch condition is not met
  (\<^verbatim>\<open>tx_req_cnt\<close> below \<^verbatim>\<open>update_min_tx_req_cnt\<close> and \<^verbatim>\<open>etx\<close> not NaN), the handler
  returns with the estimator unchanged, and it calls \<^verbatim>\<open>on_etx_outdated\<close> exactly when the
  outdated timer is stopped and the callback is set.
\<close>

theorem ws_etx_timeout_compute_outdated:
  assumes "tx_req_cnt e < update_min_tx_req_cnt ctx" and "etx e \<noteq> None"
  shows "ws_etx_timeout_compute ctx e =
     (e, if timer_stopped (timer_outdated e) \<and> on_etx_outdated ctx then [ON_ETX_OUTDATED] else [])"
  using assms by (simp add: ws_etx_timeout_compute_def)

text \<open>
  The claim C6 as stated fails while the outdated timer runs: one minute after a
  computation the handler returns without calling the callback, although it is set.
\<close>

theorem ws_etx_timeout_compute_outdated_counterexample:
  "tx_req_cnt ex_etx_measured < update_min_tx_req_cnt ex_etx_ctx \<and>
   etx ex_etx_measured \<noteq> None \<and> on_etx_outdated ex_etx_ctx \<and>
   ws_etx_timeout_compute ex_etx_ctx ex_etx_measured = (ex_etx_measured, [])"
  by (simp add: ex_etx_measured_eq ex_etx_ctx_def ws_etx_timeout_compute_def timer_stopped_def)

theorem ws_etx_timeout_compute_outdated_witness:
  "tx_req_cnt (ex_etx_measured\<lparr>timer_outdated := None\<rparr>) < update_min_tx_req_cnt ex_etx_ctx \<and>
   etx (ex_etx_measured\<lparr>timer_outdated := None\<rparr>) \<noteq> None \<and>
   ws_etx_timeout_compute ex_etx_ctx (ex_etx_measured\<lparr>timer_outdated := None\<rparr>)
     = (ex_etx_measured\<lparr>timer_outdated := None\<rparr>, [ON_ETX_OUTDATED])"
proof -
  have a: "tx_req_cnt (ex_etx_measured\<lparr>timer_outdated := None\<rparr>) < update_min_tx_req_cnt ex_etx_ctx"
    and b: "etx (ex_etx_measured\<lparr>timer_outdated := None\<rparr>) \<noteq> None"
    by (simp_all add: ex_etx_measured_eq ex_etx_ctx_def)
  from ws_etx_timeout_compute_outdated [OF a b] a b show ?thesis
    by (simp add: timer_stopped_def ex_etx_ctx_def)
qed

section \<open>RPL MRHOF: candidates and parent selection\<close>

lemma check_candidate_eq:
  assumes "rpl nce = Some r" and "neigh_defined X ipv6 nce"
  shows "\<exists>new_rank. rpl_mrhof_rank X ipv6 (Some nce) = Some new_rank \<and>
     (case rpl_mrhof_etx ipv6 nce of
        None \<Rightarrow>
          rpl_mrhof_check_candidate X ipv6 nce rank_limit
            = Some (Some ''etx'', nce\<lparr>nud_state := IPV6_NUD_PROBE\<rparr>)
      | Some e \<Rightarrow>
          (\<exists>v. rpl_mrhof_candidate_rsl_is_valid X ipv6 nce = Some v \<and>
             rpl_mrhof_check_candidate X ipv6 nce rank_limit
               = Some (if \<not> v then Some ''rsl''
                       else if e > max_link_metric (mrhof ipv6) then Some ''etx''
                       else if \<not> timer_stopped (deny_timer r) then Some ''denied''
                       else if new_rank > rank_limit then Some ''rank''
                       else None,
                       nce\<lparr>rpl := Some (r\<lparr>rsl_valid := v\<rparr>)\<rparr>)))"
proof -
  from assms obtain new_rank where n: "rpl_mrhof_rank X ipv6 (Some nce) = Some new_rank"
    by (auto simp: neigh_defined_def)
  show ?thesis
  proof (cases "rpl_mrhof_etx ipv6 nce")
    case None
    have "(if nud_state nce \<noteq> IPV6_NUD_PROBE then ipv6_nud_set_state nce IPV6_NUD_PROBE else nce)
        = nce\<lparr>nud_state := IPV6_NUD_PROBE\<rparr>"
      by (simp add: ipv6_nud_set_state_def)
    then show ?thesis
      using assms(1) n None by (simp add: rpl_mrhof_check_candidate_def)
  next
    case (Some e)
    with assms obtain v where v: "rpl_mrhof_candidate_rsl_is_valid X ipv6 nce = Some v"
      by (auto simp: neigh_defined_def)
    show ?thesis
      using assms(1) n Some v by (simp add: rpl_mrhof_check_candidate_def Let_def)
  qed
qed

text \<open>
  Claim C3, amended. For a neighbor with RPL data on which \<^verbatim>\<open>rpl_mrhof_check_candidate\<close>
  returns (\<open>neigh_defined\<close>: MinHopRankIncrease is not zero, the path cost is above \<open>-1\<close>,
  \<^verbatim>\<open>rsl_in_dbm_unsecured\<close> is known when the RSL check reads it, the RSL threshold does
  not overflow an \<^verbatim>\<open>int\<close>), the function computes the resulting rank and evaluates the
  exclusion conditions in this order, and the first that holds determines the result: (1) ETX unknown, which leaves the neighbor in the
  state \<^verbatim>\<open>IPV6_NUD_PROBE\<close> and yields \<^verbatim>\<open>"etx"\<close>; (2) the RSL hysteresis check fails,
  \<^verbatim>\<open>"rsl"\<close>; (3) ETX above \<^verbatim>\<open>max_link_metric\<close>, again \<^verbatim>\<open>"etx"\<close>; (4) the deny timer
  is running, \<^verbatim>\<open>"denied"\<close>; (5) the resulting rank exceeds the rank limit, \<^verbatim>\<open>"rank"\<close>;
  otherwise the candidate is admissible (\<^verbatim>\<open>NULL\<close>). From (2) on the neighbor's
  \<^verbatim>\<open>rsl_valid\<close> flag holds the outcome of the RSL check. The five reasons are reported
  with four diagnostic values.
\<close>

theorem rpl_mrhof_check_candidate_order:
  assumes "rpl nce = Some r" and "neigh_defined X ipv6 nce"
  shows "\<exists>new_rank. rpl_mrhof_rank X ipv6 (Some nce) = Some new_rank \<and>
     (case rpl_mrhof_etx ipv6 nce of
        None \<Rightarrow>
          rpl_mrhof_check_candidate X ipv6 nce rank_limit
            = Some (Some ''etx'', nce\<lparr>nud_state := IPV6_NUD_PROBE\<rparr>)
      | Some e \<Rightarrow>
          (\<exists>v. rpl_mrhof_candidate_rsl_is_valid X ipv6 nce = Some v \<and>
             rpl_mrhof_check_candidate X ipv6 nce rank_limit
               = Some (if \<not> v then Some ''rsl''
                       else if e > max_link_metric (mrhof ipv6) then Some ''etx''
                       else if \<not> timer_stopped (deny_timer r) then Some ''denied''
                       else if new_rank > rank_limit then Some ''rank''
                       else None,
                       nce\<lparr>rpl := Some (r\<lparr>rsl_valid := v\<rparr>)\<rparr>)))"
  using assms by (rule check_candidate_eq)

lemmas ex_mrhof_defs = ex_specs_def ex_ws_neigh_def ex_nce_def ex_ipv6_def ws_etx_fresh_def
  ws_etx_init_def rpl_mrhof_etx_def rpl_mrhof_path_cost_def rpl_mrhof_path_rank_def
  float_to_uint16_def rpl_mrhof_rank_def rpl_mrhof_candidate_rsl_is_valid_def
  rpl_mrhof_check_candidate_def ipv6_nud_set_state_def timer_stopped_def neigh_defined_def
  float_add_def float_of_int_def float_round_numeral float_round_neg_numeral
  int_add_def int_sub_def INT_MAX_def INT_MIN_def

text \<open>
  The claim C3 as stated (five distinct diagnostic values) fails: a candidate whose ETX is
  unknown and a candidate whose ETX of 600 exceeds \<^verbatim>\<open>max_link_metric\<close> are both reported
  as \<^verbatim>\<open>"etx"\<close>.
\<close>

theorem rpl_mrhof_check_candidate_order_counterexample:
  "rpl_mrhof_etx (ex_ipv6 (\<lambda>n. if n = 1 then None else Some 600) []) (ex_nce 1 256 False) = None \<and>
   rpl_mrhof_check_candidate ex_specs (ex_ipv6 (\<lambda>n. if n = 1 then None else Some 600) [])
       (ex_nce 1 256 False) 0xFFFF
     = Some (Some ''etx'', (ex_nce 1 256 False)\<lparr>nud_state := IPV6_NUD_PROBE\<rparr>) \<and>
   rpl_mrhof_etx (ex_ipv6 (\<lambda>n. if n = 1 then None else Some 600) []) (ex_nce 3 256 False) = Some 600 \<and>
   rpl_mrhof_candidate_rsl_is_valid ex_specs (ex_ipv6 (\<lambda>n. if n = 1 then None else Some 600) [])
       (ex_nce 3 256 False) = Some True \<and>
   rpl_mrhof_check_candidate ex_specs (ex_ipv6 (\<lambda>n. if n = 1 then None else Some 600) [])
       (ex_nce 3 256 False) 0xFFFF
     = Some (Some ''etx'', ex_nce 3 256 False)"
  by (simp add: ex_mrhof_defs)

theorem rpl_mrhof_check_candidate_order_witness:
  "rpl (ex_nce 2 256 False) \<noteq> None \<and>
   neigh_defined ex_specs (ex_ipv6 (\<lambda>n. Some 384) []) (ex_nce 2 256 False) \<and>
   rpl_mrhof_check_candidate ex_specs (ex_ipv6 (\<lambda>n. Some 384) []) (ex_nce 2 256 False) 0xFFFF
     = Some (None, ex_nce 2 256 False)"
proof -
  have a: "rpl (ex_nce 2 256 False) = Some \<lparr>dio_rank = 256, config_min_hop_rank_inc = 128,
      config_max_rank_inc = 0, is_parent = False, rsl_valid = True, deny_timer = None\<rparr>"
    by (simp add: ex_nce_def)
  have b: "neigh_defined ex_specs (ex_ipv6 (\<lambda>n. Some 384) []) (ex_nce 2 256 False)"
    by (simp add: ex_mrhof_defs)
  have c: "rpl_mrhof_etx (ex_ipv6 (\<lambda>n. Some 384) []) (ex_nce 2 256 False) = Some 384"
    "rpl_mrhof_rank ex_specs (ex_ipv6 (\<lambda>n. Some 384) []) (Some (ex_nce 2 256 False)) = Some 640"
    "rpl_mrhof_candidate_rsl_is_valid ex_specs (ex_ipv6 (\<lambda>n. Some 384) []) (ex_nce 2 256 False) = Some True"
    "max_link_metric (mrhof (ex_ipv6 (\<lambda>n. Some 384) [])) = 512"
    by (simp_all add: ex_mrhof_defs)
  from rpl_mrhof_check_candidate_order [OF a b, of "0xFFFF"]
  have "rpl_mrhof_check_candidate ex_specs (ex_ipv6 (\<lambda>n. Some 384) []) (ex_nce 2 256 False) 0xFFFF
     = Some (None, ex_nce 2 256 False)"
    unfolding c by (auto simp add: timer_stopped_def ex_nce_def)
  with a b show ?thesis by simp
qed

lemma check_candidate_result:
  assumes "rpl nce = Some r" and "neigh_defined X ipv6 nce"
  shows "\<exists>d nce'. rpl_mrhof_check_candidate X ipv6 nce rl = Some (d, nce') \<and>
     nce_is_parent nce' = nce_is_parent nce \<and> rpl nce' \<noteq> None \<and>
     (admissible X ipv6 rl nce \<longleftrightarrow> d = None)"
proof -
  from check_candidate_eq [OF assms, of rl]
  obtain d nce' where c: "rpl_mrhof_check_candidate X ipv6 nce rl = Some (d, nce')"
    and n: "nce' = nce\<lparr>nud_state := IPV6_NUD_PROBE\<rparr> \<or> (\<exists>v. nce' = nce\<lparr>rpl := Some (r\<lparr>rsl_valid := v\<rparr>)\<rparr>)"
    by (cases "rpl_mrhof_etx ipv6 nce") auto
  from n assms(1) have "nce_is_parent nce' = nce_is_parent nce" "rpl nce' \<noteq> None"
    by (auto simp: nce_is_parent_def)
  moreover have "admissible X ipv6 rl nce \<longleftrightarrow> d = None"
    by (cases d) (simp_all add: admissible_def c)
  ultimately show ?thesis using c by blast
qed

lemma admissible_rpl: "admissible X ipv6 rl nce \<Longrightarrow> rpl nce \<noteq> None"
  by (cases "rpl nce") (simp_all add: admissible_def rpl_mrhof_check_candidate_def)

lemma path_cost_defined: "rpl nce = Some r \<Longrightarrow> \<exists>pc. rpl_mrhof_path_cost ipv6 nce = Some pc"
  by (cases "rpl_mrhof_etx ipv6 nce") (simp_all add: rpl_mrhof_path_cost_def)

text \<open>
  What the loop of \<^verbatim>\<open>rpl_mrhof_select_parent\<close> calls on a neighbor does not read the
  neighbor cache.
\<close>

lemma mrhof_neigh_cache: "mrhof (ipv6\<lparr>neigh_cache := c\<rparr>) = mrhof ipv6"
  by simp

lemma neigh_cache_unread:
  "rpl_mrhof_path_cost (ipv6\<lparr>neigh_cache := c\<rparr>) nce = rpl_mrhof_path_cost ipv6 nce"
  "rpl_mrhof_rank X (ipv6\<lparr>neigh_cache := c\<rparr>) (Some nce) = rpl_mrhof_rank X ipv6 (Some nce)"
  "rpl_mrhof_check_candidate X (ipv6\<lparr>neigh_cache := c\<rparr>) nce rl
     = rpl_mrhof_check_candidate X ipv6 nce rl"
  unfolding rpl_mrhof_check_candidate_def rpl_mrhof_rank_def rpl_mrhof_path_rank_def
    rpl_mrhof_path_cost_def rpl_mrhof_etx_def rpl_mrhof_candidate_rsl_is_valid_def
    option.case mrhof_neigh_cache
  by (rule refl)+

lemma select_loop_spec:
  assumes "list_all (neigh_defined X ipv6) ns"
  shows "\<exists>c' p' ns'. rpl_mrhof_select_loop X ipv6 rl i ns (c, p) = Some ((c', p'), ns') \<and>
      map nce_is_parent ns' = map nce_is_parent ns \<and>
      map (\<lambda>n. rpl n = None) ns' = map (\<lambda>n. rpl n = None) ns \<and>
      c' \<le> c \<and>
      (\<forall>n \<in> set ns. admissible X ipv6 rl n \<longrightarrow>
         (\<forall>pc. rpl_mrhof_path_cost ipv6 n = Some pc \<longrightarrow> c' \<le> pc)) \<and>
      ((c', p') = (c, p) \<or>
       (\<exists>j < length ns. p' = Some (i + j) \<and> admissible X ipv6 rl (ns ! j) \<and>
          rpl_mrhof_path_cost ipv6 (ns ! j) = Some c' \<and> c' < c))"
  using assms
proof (induction ns arbitrary: i c p)
  case Nil
  then show ?case by simp
next
  case (Cons nce rest)
  from Cons.prems have d: "neigh_defined X ipv6 nce" "list_all (neigh_defined X ipv6) rest"
    by simp_all
  show ?case
  proof (cases "rpl nce")
    case None
    from Cons.IH [OF d(2), of "Suc i" c p]
    obtain c' p' rest' where l: "rpl_mrhof_select_loop X ipv6 rl (Suc i) rest (c, p) = Some ((c', p'), rest')"
      and f: "map nce_is_parent rest' = map nce_is_parent rest"
        "map (\<lambda>n. rpl n = None) rest' = map (\<lambda>n. rpl n = None) rest"
      and m: "c' \<le> c" "\<forall>n \<in> set rest. admissible X ipv6 rl n \<longrightarrow>
         (\<forall>pc. rpl_mrhof_path_cost ipv6 n = Some pc \<longrightarrow> c' \<le> pc)"
      and s: "(c', p') = (c, p) \<or>
       (\<exists>j < length rest. p' = Some (Suc i + j) \<and> admissible X ipv6 rl (rest ! j) \<and>
          rpl_mrhof_path_cost ipv6 (rest ! j) = Some c' \<and> c' < c)"
      by blast
    have r: "rpl_mrhof_select_loop X ipv6 rl i (nce # rest) (c, p) = Some ((c', p'), nce # rest')"
      using None l by simp
    have na: "\<not> admissible X ipv6 rl nce"
      using None admissible_rpl by blast
    have s': "(c', p') = (c, p) \<or>
       (\<exists>j < length (nce # rest). p' = Some (i + j) \<and> admissible X ipv6 rl ((nce # rest) ! j) \<and>
          rpl_mrhof_path_cost ipv6 ((nce # rest) ! j) = Some c' \<and> c' < c)"
      using s
    proof
      assume "(c', p') = (c, p)"
      then show ?thesis by blast
    next
      assume "\<exists>j < length rest. p' = Some (Suc i + j) \<and> admissible X ipv6 rl (rest ! j) \<and>
          rpl_mrhof_path_cost ipv6 (rest ! j) = Some c' \<and> c' < c"
      then obtain j where "j < length rest" "p' = Some (Suc i + j)" "admissible X ipv6 rl (rest ! j)"
        "rpl_mrhof_path_cost ipv6 (rest ! j) = Some c'" "c' < c"
        by blast
      then have "Suc j < length (nce # rest) \<and> p' = Some (i + Suc j) \<and>
          admissible X ipv6 rl ((nce # rest) ! Suc j) \<and>
          rpl_mrhof_path_cost ipv6 ((nce # rest) ! Suc j) = Some c' \<and> c' < c"
        by simp
      then show ?thesis by blast
    qed
    show ?thesis
      using r f m na s' by (intro exI [of _ c'] exI [of _ p'] exI [of _ "nce # rest'"]) simp
  next
    case (Some r)
    from path_cost_defined [OF Some] obtain pc where pc: "rpl_mrhof_path_cost ipv6 nce = Some pc"
      by blast
    from d(1) Some obtain nr where nr: "rpl_mrhof_rank X ipv6 (Some nce) = Some nr"
      by (auto simp: neigh_defined_def)
    from check_candidate_result [OF Some d(1), of rl]
    obtain dd nce' where ch: "rpl_mrhof_check_candidate X ipv6 nce rl = Some (dd, nce')"
      and fp: "nce_is_parent nce' = nce_is_parent nce" "rpl nce' \<noteq> None"
      and ad: "admissible X ipv6 rl nce \<longleftrightarrow> dd = None"
      by blast
    define st where "st = (if dd \<noteq> None then (c, p) else if pc \<ge> c then (c, p) else (pc, Some i))"
    obtain c1 p1 where st1: "st = (c1, p1)" by (cases st)
    from Cons.IH [OF d(2), of "Suc i" c1 p1]
    obtain c' p' rest' where l: "rpl_mrhof_select_loop X ipv6 rl (Suc i) rest (c1, p1) = Some ((c', p'), rest')"
      and f: "map nce_is_parent rest' = map nce_is_parent rest"
        "map (\<lambda>n. rpl n = None) rest' = map (\<lambda>n. rpl n = None) rest"
      and m: "c' \<le> c1" "\<forall>n \<in> set rest. admissible X ipv6 rl n \<longrightarrow>
         (\<forall>pc. rpl_mrhof_path_cost ipv6 n = Some pc \<longrightarrow> c' \<le> pc)"
      and s: "(c', p') = (c1, p1) \<or>
       (\<exists>j < length rest. p' = Some (Suc i + j) \<and> admissible X ipv6 rl (rest ! j) \<and>
          rpl_mrhof_path_cost ipv6 (rest ! j) = Some c' \<and> c' < c1)"
      by blast
    have "rpl_mrhof_select_loop X ipv6 rl i (nce # rest) (c, p) =
        rpl_mrhof_select_loop X ipv6 rl (Suc i) rest st \<bind>
          (\<lambda>(st'', rest'). Some (st'', nce' # rest'))"
      using Some pc nr ch by (simp add: st_def Let_def)
    then have r: "rpl_mrhof_select_loop X ipv6 rl i (nce # rest) (c, p) = Some ((c', p'), nce' # rest')"
      unfolding st1 l by simp
    have c1: "c1 \<le> c" and c1a: "admissible X ipv6 rl nce \<longrightarrow> c1 \<le> pc"
      and c1s: "(c1, p1) = (c, p) \<or> (c1, p1) = (pc, Some i) \<and> admissible X ipv6 rl nce \<and> pc < c"
      using st1 ad by (auto simp: st_def split: if_splits)
    have mn: "\<forall>n \<in> set (nce # rest). admissible X ipv6 rl n \<longrightarrow>
         (\<forall>q. rpl_mrhof_path_cost ipv6 n = Some q \<longrightarrow> c' \<le> q)"
      using m c1a pc by auto
    have s': "(c', p') = (c, p) \<or>
       (\<exists>j < length (nce # rest). p' = Some (i + j) \<and> admissible X ipv6 rl ((nce # rest) ! j) \<and>
          rpl_mrhof_path_cost ipv6 ((nce # rest) ! j) = Some c' \<and> c' < c)"
      using s
    proof
      assume e: "(c', p') = (c1, p1)"
      from c1s show ?thesis
      proof
        assume "(c1, p1) = (c, p)"
        with e show ?thesis by simp
      next
        assume "(c1, p1) = (pc, Some i) \<and> admissible X ipv6 rl nce \<and> pc < c"
        with e pc have "0 < length (nce # rest) \<and> p' = Some (i + 0) \<and>
            admissible X ipv6 rl ((nce # rest) ! 0) \<and>
            rpl_mrhof_path_cost ipv6 ((nce # rest) ! 0) = Some c' \<and> c' < c"
          by simp
        then show ?thesis by blast
      qed
    next
      assume "\<exists>j < length rest. p' = Some (Suc i + j) \<and> admissible X ipv6 rl (rest ! j) \<and>
          rpl_mrhof_path_cost ipv6 (rest ! j) = Some c' \<and> c' < c1"
      then obtain j where "j < length rest" "p' = Some (Suc i + j)" "admissible X ipv6 rl (rest ! j)"
        "rpl_mrhof_path_cost ipv6 (rest ! j) = Some c'" "c' < c1"
        by blast
      with c1 have "Suc j < length (nce # rest) \<and> p' = Some (i + Suc j) \<and>
          admissible X ipv6 rl ((nce # rest) ! Suc j) \<and>
          rpl_mrhof_path_cost ipv6 ((nce # rest) ! Suc j) = Some c' \<and> c' < c"
        by simp
      then show ?thesis by blast
    qed
    have fl: "map nce_is_parent (nce' # rest') = map nce_is_parent (nce # rest)"
      "map (\<lambda>n. rpl n = None) (nce' # rest') = map (\<lambda>n. rpl n = None) (nce # rest)"
      using f fp Some by simp_all
    have "c' \<le> c" using m(1) c1 by simp
    with r fl mn s' show ?thesis
      by (intro exI [of _ c'] exI [of _ p'] exI [of _ "nce' # rest'"]) (simp only: simp_thms)
  qed
qed

lemma slist_find_Some:
  "slist_find P xs = Some b \<Longrightarrow> b < length xs \<and> P (xs ! b)"
proof (induction xs arbitrary: b)
  case Nil
  then show ?case by simp
next
  case (Cons x xs)
  then show ?case by (cases "P x") auto
qed

lemma slist_find_None: "slist_find P xs = None \<Longrightarrow> \<forall>x \<in> set xs. \<not> P x"
  by (induction xs) (auto split: if_splits)

lemma count_le1_unique:
  "length (filter P xs) \<le> 1 \<Longrightarrow> i < length xs \<Longrightarrow> j < length xs \<Longrightarrow>
   P (xs ! i) \<Longrightarrow> P (xs ! j) \<Longrightarrow> i = j"
proof (induction xs arbitrary: i j)
  case Nil
  then show ?case by simp
next
  case (Cons x xs)
  show ?case
  proof (cases "P x")
    case True
    with Cons.prems(1) have "filter P xs = []" by simp
    then have n: "\<forall>y \<in> set xs. \<not> P y" by (simp add: filter_empty_conv)
    have "i = 0"
    proof (cases i)
      case (Suc k)
      with Cons.prems(2,4) n show ?thesis by auto
    qed simp
    moreover have "j = 0"
    proof (cases j)
      case (Suc k)
      with Cons.prems(3,5) n show ?thesis by auto
    qed simp
    ultimately show ?thesis by simp
  next
    case False
    with Cons.prems(4,5) obtain i' j' where e: "i = Suc i'" "j = Suc j'"
      by (cases i; cases j) auto
    with Cons.prems False have "i' = j'"
      by (intro Cons.IH) auto
    with e show ?thesis by simp
  qed
qed

lemma count_none:
  "\<forall>i < length xs. \<not> P (xs ! i) \<Longrightarrow> length (filter P xs) = 0"
  by (auto simp: filter_empty_conv in_set_conv_nth)

lemma count_one:
  assumes "a < length xs" "\<forall>i < length xs. P (xs ! i) \<longleftrightarrow> i = a"
  shows "length (filter P xs) = 1"
proof -
  have x: "xs = take a xs @ xs ! a # drop (Suc a) xs"
    using assms(1) by (rule id_take_nth_drop)
  have "filter P (take a xs) = []"
    using assms by (auto simp: filter_empty_conv in_set_conv_nth)
  moreover have "filter P (drop (Suc a) xs) = []"
    using assms by (auto simp: filter_empty_conv in_set_conv_nth)
  moreover have "P (xs ! a)" using assms by simp
  ultimately have "filter P (take a xs @ xs ! a # drop (Suc a) xs) = [xs ! a]"
    by simp
  with x show ?thesis by simp
qed

lemma nce_is_parent_set [simp]:
  "nce_is_parent (set_is_parent b nce) = (b \<and> rpl nce \<noteq> None)"
  "(rpl (set_is_parent b nce) = None) = (rpl nce = None)"
  by (cases "rpl nce"; simp add: nce_is_parent_def set_is_parent_def)+

lemma cur_min_path_cost_defined: "\<exists>cc. cur_min_path_cost ipv6 = Some cc"
proof (cases "rpl_neigh_pref_parent ipv6")
  case None
  then show ?thesis by (simp add: cur_min_path_cost_def)
next
  case (Some b)
  then have "nce_is_parent (neigh_cache ipv6 ! b)"
    by (auto simp: rpl_neigh_pref_parent_def dest: slist_find_Some)
  then obtain r where r: "rpl (neigh_cache ipv6 ! b) = Some r"
    by (cases "rpl (neigh_cache ipv6 ! b)") (auto simp: nce_is_parent_def)
  from path_cost_defined [OF r] show ?thesis
    by (auto simp: cur_min_path_cost_def Some r)
qed

lemma select_parent_run:
  assumes "select_defined X ipv6" and rl: "select_rank_limit X ipv6 = Some rl"
    and cc: "cur_min_path_cost ipv6 = Some cur_cost"
  shows "\<exists>c' p' cache'.
      rpl_mrhof_select_parent X ipv6 =
        (if p' = rpl_neigh_pref_parent ipv6 \<and> cur_cost < max_path_cost (mrhof ipv6) then
           Some (rpl_neigh_pref_parent ipv6, ipv6\<lparr>neigh_cache := cache'\<rparr>)
         else if cur_cost < max_path_cost (mrhof ipv6) \<and> c' < max_path_cost (mrhof ipv6) \<and>
                 float_add c' (parent_switch_threshold (mrhof ipv6)) > cur_cost then
           (case rpl_neigh_pref_parent ipv6 of
              None \<Rightarrow> None
            | Some cur \<Rightarrow> Some (rpl_neigh_pref_parent ipv6, ipv6\<lparr>neigh_cache := cache'\<rparr>))
         else
           Some (p', ipv6\<lparr>neigh_cache :=
             (let cache1 = (case rpl_neigh_pref_parent ipv6 of
                        None \<Rightarrow> cache'
                      | Some cur \<Rightarrow> cache'[cur := set_is_parent False (cache' ! cur)])
              in case p' of
                        None \<Rightarrow> cache1
                      | Some new \<Rightarrow> cache1[new := set_is_parent True (cache1 ! new)])\<rparr>)) \<and>
      length cache' = length (neigh_cache ipv6) \<and>
      (\<forall>i < length (neigh_cache ipv6).
         nce_is_parent (cache' ! i) = nce_is_parent (neigh_cache ipv6 ! i) \<and>
         (rpl (cache' ! i) = None) = (rpl (neigh_cache ipv6 ! i) = None)) \<and>
      c' \<le> max_path_cost (mrhof ipv6) \<and>
      (\<forall>j < length (neigh_cache ipv6). admissible X ipv6 rl (neigh_cache ipv6 ! j) \<longrightarrow>
         (\<forall>q. rpl_mrhof_path_cost ipv6 (neigh_cache ipv6 ! j) = Some q \<longrightarrow> c' \<le> q)) \<and>
      ((c', p') = (max_path_cost (mrhof ipv6), None) \<or>
       (\<exists>a < length (neigh_cache ipv6). p' = Some a \<and> admissible X ipv6 rl (neigh_cache ipv6 ! a) \<and>
          rpl_mrhof_path_cost ipv6 (neigh_cache ipv6 ! a) = Some c' \<and>
          c' < max_path_cost (mrhof ipv6)))"
proof -
  let ?ns = "neigh_cache ipv6" and ?m = "max_path_cost (mrhof ipv6)"
  from assms(1) have "list_all (neigh_defined X ipv6) ?ns"
    by (simp add: select_defined_def)
  from select_loop_spec [OF this, of rl 0 ?m None]
  obtain c' p' cache' where l: "rpl_mrhof_select_loop X ipv6 rl 0 ?ns (?m, None) = Some ((c', p'), cache')"
    and f: "map nce_is_parent cache' = map nce_is_parent ?ns"
      "map (\<lambda>n. rpl n = None) cache' = map (\<lambda>n. rpl n = None) ?ns"
    and m: "c' \<le> ?m" "\<forall>n \<in> set ?ns. admissible X ipv6 rl n \<longrightarrow>
         (\<forall>pc. rpl_mrhof_path_cost ipv6 n = Some pc \<longrightarrow> c' \<le> pc)"
    and s: "(c', p') = (?m, None) \<or>
       (\<exists>j < length ?ns. p' = Some (0 + j) \<and> admissible X ipv6 rl (?ns ! j) \<and>
          rpl_mrhof_path_cost ipv6 (?ns ! j) = Some c' \<and> c' < ?m)"
    by blast
  have len: "length cache' = length ?ns"
    using f(1) by (rule map_eq_imp_length_eq)
  have fl: "\<forall>i < length ?ns. nce_is_parent (cache' ! i) = nce_is_parent (?ns ! i) \<and>
         (rpl (cache' ! i) = None) = (rpl (?ns ! i) = None)"
  proof (intro allI impI)
    fix i assume i: "i < length ?ns"
    have "map nce_is_parent cache' ! i = map nce_is_parent ?ns ! i"
      "map (\<lambda>n. rpl n = None) cache' ! i = map (\<lambda>n. rpl n = None) ?ns ! i"
      using f by simp_all
    with i len show "nce_is_parent (cache' ! i) = nce_is_parent (?ns ! i) \<and>
         (rpl (cache' ! i) = None) = (rpl (?ns ! i) = None)"
      by simp
  qed
  have e: "rpl_mrhof_select_parent X ipv6 =
        (if p' = rpl_neigh_pref_parent ipv6 \<and> cur_cost < ?m then
           Some (rpl_neigh_pref_parent ipv6, ipv6\<lparr>neigh_cache := cache'\<rparr>)
         else if cur_cost < ?m \<and> c' < ?m \<and> float_add c' (parent_switch_threshold (mrhof ipv6)) > cur_cost then
           (case rpl_neigh_pref_parent ipv6 of
              None \<Rightarrow> None
            | Some cur \<Rightarrow> Some (rpl_neigh_pref_parent ipv6, ipv6\<lparr>neigh_cache := cache'\<rparr>))
         else
           Some (p', ipv6\<lparr>neigh_cache :=
             (let cache1 = (case rpl_neigh_pref_parent ipv6 of
                        None \<Rightarrow> cache'
                      | Some cur \<Rightarrow> cache'[cur := set_is_parent False (cache' ! cur)])
              in case p' of
                        None \<Rightarrow> cache1
                      | Some new \<Rightarrow> cache1[new := set_is_parent True (cache1 ! new)])\<rparr>))"
    by (simp add: rpl_mrhof_select_parent_def rl cc l Let_def)
  have mn: "\<forall>j < length ?ns. admissible X ipv6 rl (?ns ! j) \<longrightarrow>
         (\<forall>q. rpl_mrhof_path_cost ipv6 (?ns ! j) = Some q \<longrightarrow> c' \<le> q)"
    using m(2) by (meson nth_mem)
  from s have s': "(c', p') = (?m, None) \<or>
       (\<exists>a < length ?ns. p' = Some a \<and> admissible X ipv6 rl (?ns ! a) \<and>
          rpl_mrhof_path_cost ipv6 (?ns ! a) = Some c' \<and> c' < ?m)"
    by simp
  from e len fl m(1) mn s' show ?thesis
    by (intro exI [of _ c'] exI [of _ p'] exI [of _ cache']) (simp only: simp_thms)
qed

lemma count_cong:
  assumes "length xs = length ys" "\<forall>i < length ys. P (xs ! i) = P (ys ! i)"
  shows "length (filter P xs) = length (filter P ys)"
proof -
  have m: "map P xs = map P ys"
    using assms by (intro nth_equalityI) simp_all
  have f: "length (filter P zs) = length (filter id (map P zs))" for zs
    by (simp add: filter_map o_def)
  show ?thesis
    unfolding f [of xs] f [of ys] m ..
qed

lemma path_cost_rounded:
  assumes "rpl_mrhof_path_cost ipv6 nce = Some c"
  shows "c = max_path_cost (mrhof ipv6) \<or> float_round c = c"
proof (cases "rpl_mrhof_etx ipv6 nce")
  case None
  with assms show ?thesis by (simp add: rpl_mrhof_path_cost_def)
next
  case (Some e)
  with assms obtain x where "c = float_add e x"
    by (auto simp: rpl_mrhof_path_cost_def split: Option.bind_splits)
  then show ?thesis by (simp add: float_add_idem)
qed

lemma pref_parent_rpl:
  assumes "rpl_neigh_pref_parent ipv6 = Some b"
  shows "b < length (neigh_cache ipv6)" "nce_is_parent (neigh_cache ipv6 ! b)"
    "\<exists>r. rpl (neigh_cache ipv6 ! b) = Some r"
proof -
  from assms show b: "b < length (neigh_cache ipv6)" "nce_is_parent (neigh_cache ipv6 ! b)"
    by (auto simp: rpl_neigh_pref_parent_def dest: slist_find_Some)
  then show "\<exists>r. rpl (neigh_cache ipv6 ! b) = Some r"
    by (cases "rpl (neigh_cache ipv6 ! b)") (auto simp: nce_is_parent_def)
qed

lemma cur_min_path_cost_parent:
  assumes "rpl_neigh_pref_parent ipv6 = Some b" and "rpl (neigh_cache ipv6 ! b) = Some rb"
  shows "cur_min_path_cost ipv6 =
     (if timer_stopped (deny_timer rb) then rpl_mrhof_path_cost ipv6 (neigh_cache ipv6 ! b)
      else Some (max_path_cost (mrhof ipv6)))"
  using assms by (simp add: cur_min_path_cost_def)

text \<open>
  Claim C2, amended. In a run of \<^verbatim>\<open>rpl_mrhof_select_parent\<close> that returns
  (\<open>select_defined\<close>), with a current preferred parent \<open>b\<close> whose deny timer is not
  running, let \<open>a\<close> be an admissible candidate (for the rank limit of the run) of minimum
  path cost. If the path costs of \<open>a\<close> and \<open>b\<close> are both below
  \<^verbatim>\<open>max_path_cost\<close>, and the \<^verbatim>\<open>float\<close> sum of the path cost of \<open>a\<close> and
  \<^verbatim>\<open>parent_switch_threshold\<close> is greater than the path cost of \<open>b\<close>, then the function
  returns \<open>b\<close> and no neighbor's \<^verbatim>\<open>is_parent\<close> flag changes. (The proof does not need
  that \<open>a\<close> differs from \<open>b\<close>.)
\<close>

theorem rpl_mrhof_select_parent_hysteresis:
  assumes "select_defined X ipv6"
    and "rpl_neigh_pref_parent ipv6 = Some b"
    and "rpl (neigh_cache ipv6 ! b) = Some rb"
    and "timer_stopped (deny_timer rb)"
    and "rpl_mrhof_path_cost ipv6 (neigh_cache ipv6 ! b) = Some cost_b"
    and "select_rank_limit X ipv6 = Some rl"
    and "a < length (neigh_cache ipv6)"
    and "admissible X ipv6 rl (neigh_cache ipv6 ! a)"
    and "rpl_mrhof_path_cost ipv6 (neigh_cache ipv6 ! a) = Some cost_a"
    and "\<forall>j < length (neigh_cache ipv6). admissible X ipv6 rl (neigh_cache ipv6 ! j) \<longrightarrow>
           (\<forall>q. rpl_mrhof_path_cost ipv6 (neigh_cache ipv6 ! j) = Some q \<longrightarrow> cost_a \<le> q)"
    and "cost_b < max_path_cost (mrhof ipv6)"
    and "cost_a < max_path_cost (mrhof ipv6)"
    and "float_add cost_a (parent_switch_threshold (mrhof ipv6)) > cost_b"
  shows "\<exists>ipv6'. rpl_mrhof_select_parent X ipv6 = Some (Some b, ipv6') \<and>
      mrhof ipv6' = mrhof ipv6 \<and>
      length (neigh_cache ipv6') = length (neigh_cache ipv6) \<and>
      (\<forall>i < length (neigh_cache ipv6).
         nce_is_parent (neigh_cache ipv6' ! i) = nce_is_parent (neigh_cache ipv6 ! i))"
proof -
  let ?ns = "neigh_cache ipv6" and ?m = "max_path_cost (mrhof ipv6)"
  have cc: "cur_min_path_cost ipv6 = Some cost_b"
    using cur_min_path_cost_parent [OF assms(2,3)] assms(4,5) by simp
  from select_parent_run [OF assms(1,6) cc]
  obtain c' p' cache' where e: "rpl_mrhof_select_parent X ipv6 =
        (if p' = rpl_neigh_pref_parent ipv6 \<and> cost_b < ?m then
           Some (rpl_neigh_pref_parent ipv6, ipv6\<lparr>neigh_cache := cache'\<rparr>)
         else if cost_b < ?m \<and> c' < ?m \<and>
                 float_add c' (parent_switch_threshold (mrhof ipv6)) > cost_b then
           (case rpl_neigh_pref_parent ipv6 of
              None \<Rightarrow> None
            | Some cur \<Rightarrow> Some (rpl_neigh_pref_parent ipv6, ipv6\<lparr>neigh_cache := cache'\<rparr>))
         else
           Some (p', ipv6\<lparr>neigh_cache :=
             (let cache1 = (case rpl_neigh_pref_parent ipv6 of
                        None \<Rightarrow> cache'
                      | Some cur \<Rightarrow> cache'[cur := set_is_parent False (cache' ! cur)])
              in case p' of
                        None \<Rightarrow> cache1
                      | Some new \<Rightarrow> cache1[new := set_is_parent True (cache1 ! new)])\<rparr>))"
    and len: "length cache' = length ?ns"
    and fl: "\<forall>i < length ?ns. nce_is_parent (cache' ! i) = nce_is_parent (?ns ! i) \<and>
         (rpl (cache' ! i) = None) = (rpl (?ns ! i) = None)"
    and mn: "\<forall>j < length ?ns. admissible X ipv6 rl (?ns ! j) \<longrightarrow>
         (\<forall>q. rpl_mrhof_path_cost ipv6 (?ns ! j) = Some q \<longrightarrow> c' \<le> q)"
    and s: "(c', p') = (?m, None) \<or>
       (\<exists>k < length ?ns. p' = Some k \<and> admissible X ipv6 rl (?ns ! k) \<and>
          rpl_mrhof_path_cost ipv6 (?ns ! k) = Some c' \<and> c' < ?m)"
    by blast
  from mn assms(7,8,9) have le: "c' \<le> cost_a" by blast
  with assms(12) have "c' \<noteq> ?m" by simp
  with s obtain k where "k < length ?ns" "admissible X ipv6 rl (?ns ! k)"
    "rpl_mrhof_path_cost ipv6 (?ns ! k) = Some c'"
    by auto
  with assms(10) have "cost_a \<le> c'" by blast
  with le have c: "c' = cost_a" by simp
  have "rpl_mrhof_select_parent X ipv6 = Some (Some b, ipv6\<lparr>neigh_cache := cache'\<rparr>)"
    unfolding e c using assms(2,11,12,13) by simp
  with len fl show ?thesis by simp
qed

text \<open>
  Claim C1, amended. Every run of \<^verbatim>\<open>rpl_mrhof_select_parent\<close> that returns
  (\<open>select_defined\<close>), on a context with at most one neighbor flagged \<^verbatim>\<open>is_parent\<close>,
  leaves at most one neighbor flagged. If moreover some admissible candidate (for the rank
  limit of the run) has a path cost below \<^verbatim>\<open>max_path_cost\<close> that is lower than the path
  cost of the current preferred parent by at least \<^verbatim>\<open>parent_switch_threshold\<close> (path costs
  as \<^verbatim>\<open>rpl_mrhof_path_cost\<close> computes them, their difference taken exactly), the function returns an admissible candidate of minimum
  path cost, and afterwards that neighbor, and no other, has its \<^verbatim>\<open>is_parent\<close> flag set
  (the old parent's flag is cleared): exactly one neighbor is flagged.
\<close>

theorem rpl_mrhof_select_parent_switch:
  assumes "select_defined X ipv6" and "parent_count ipv6 \<le> 1"
    and "select_rank_limit X ipv6 = Some rl"
  shows "\<exists>res ipv6'. rpl_mrhof_select_parent X ipv6 = Some (res, ipv6') \<and>
      parent_count ipv6' \<le> 1 \<and>
      ((\<exists>b cost_b. rpl_neigh_pref_parent ipv6 = Some b \<and>
          rpl_mrhof_path_cost ipv6 (neigh_cache ipv6 ! b) = Some cost_b \<and>
          (\<exists>k < length (neigh_cache ipv6). \<exists>q.
             admissible X ipv6 rl (neigh_cache ipv6 ! k) \<and>
             rpl_mrhof_path_cost ipv6 (neigh_cache ipv6 ! k) = Some q \<and>
             q < max_path_cost (mrhof ipv6) \<and>
             q + parent_switch_threshold (mrhof ipv6) \<le> cost_b)) \<longrightarrow>
       (\<exists>a c. res = Some a \<and> a < length (neigh_cache ipv6) \<and>
          admissible X ipv6 rl (neigh_cache ipv6 ! a) \<and>
          rpl_mrhof_path_cost ipv6 (neigh_cache ipv6 ! a) = Some c \<and>
          (\<forall>j < length (neigh_cache ipv6). admissible X ipv6 rl (neigh_cache ipv6 ! j) \<longrightarrow>
             (\<forall>q. rpl_mrhof_path_cost ipv6 (neigh_cache ipv6 ! j) = Some q \<longrightarrow> c \<le> q)) \<and>
          parent_count ipv6' = 1 \<and>
          length (neigh_cache ipv6') = length (neigh_cache ipv6) \<and>
          (\<forall>i < length (neigh_cache ipv6). nce_is_parent (neigh_cache ipv6' ! i) \<longleftrightarrow> i = a)))"
proof -
  let ?ns = "neigh_cache ipv6" and ?m = "max_path_cost (mrhof ipv6)"
  let ?cur = "rpl_neigh_pref_parent ipv6" and ?th = "parent_switch_threshold (mrhof ipv6)"
  let ?n = "length ?ns"
  let ?K = "\<exists>b cost_b. ?cur = Some b \<and> rpl_mrhof_path_cost ipv6 (?ns ! b) = Some cost_b \<and>
          (\<exists>k < ?n. \<exists>q. admissible X ipv6 rl (?ns ! k) \<and>
             rpl_mrhof_path_cost ipv6 (?ns ! k) = Some q \<and> q < ?m \<and> q + ?th \<le> cost_b)"
  from cur_min_path_cost_defined obtain cur_cost where cc: "cur_min_path_cost ipv6 = Some cur_cost"
    by blast
  from select_parent_run [OF assms(1,3) cc]
  obtain c' p' cache' where e: "rpl_mrhof_select_parent X ipv6 =
        (if p' = ?cur \<and> cur_cost < ?m then
           Some (?cur, ipv6\<lparr>neigh_cache := cache'\<rparr>)
         else if cur_cost < ?m \<and> c' < ?m \<and> float_add c' ?th > cur_cost then
           (case ?cur of
              None \<Rightarrow> None
            | Some cur \<Rightarrow> Some (?cur, ipv6\<lparr>neigh_cache := cache'\<rparr>))
         else
           Some (p', ipv6\<lparr>neigh_cache :=
             (let cache1 = (case ?cur of
                        None \<Rightarrow> cache'
                      | Some cur \<Rightarrow> cache'[cur := set_is_parent False (cache' ! cur)])
              in case p' of
                        None \<Rightarrow> cache1
                      | Some new \<Rightarrow> cache1[new := set_is_parent True (cache1 ! new)])\<rparr>))"
    and len: "length cache' = ?n"
    and fl: "\<forall>i < ?n. nce_is_parent (cache' ! i) = nce_is_parent (?ns ! i) \<and>
         (rpl (cache' ! i) = None) = (rpl (?ns ! i) = None)"
    and mn: "\<forall>j < ?n. admissible X ipv6 rl (?ns ! j) \<longrightarrow>
         (\<forall>q. rpl_mrhof_path_cost ipv6 (?ns ! j) = Some q \<longrightarrow> c' \<le> q)"
    and s: "(c', p') = (?m, None) \<or>
       (\<exists>a < ?n. p' = Some a \<and> admissible X ipv6 rl (?ns ! a) \<and>
          rpl_mrhof_path_cost ipv6 (?ns ! a) = Some c' \<and> c' < ?m)"
    by blast
  have uniq: "i = j" if "i < ?n" "j < ?n" "nce_is_parent (?ns ! i)" "nce_is_parent (?ns ! j)" for i j
    using count_le1_unique [of nce_is_parent ?ns i j] assms(2) that by (simp add: parent_count_def)
  have cnt_keep: "parent_count (ipv6\<lparr>neigh_cache := cache'\<rparr>) = parent_count ipv6"
    unfolding parent_count_def using count_cong [of cache' ?ns nce_is_parent] len fl by simp
  define cache1 where "cache1 = (case ?cur of None \<Rightarrow> cache'
      | Some cur \<Rightarrow> cache'[cur := set_is_parent False (cache' ! cur)])"
  define cache2 where "cache2 = (case p' of None \<Rightarrow> cache1
      | Some new \<Rightarrow> cache1[new := set_is_parent True (cache1 ! new)])"
  have l1: "length cache1 = ?n"
    by (cases ?cur) (simp_all add: cache1_def len)
  have l2: "length cache2 = ?n"
    by (cases p') (simp_all add: cache2_def l1)
  have c1: "\<not> nce_is_parent (cache1 ! i) \<and> (rpl (cache1 ! i) = None) = (rpl (?ns ! i) = None)"
    if i: "i < ?n" for i
  proof (cases ?cur)
    case None
    then have "\<forall>x \<in> set ?ns. \<not> nce_is_parent x"
      by (simp add: rpl_neigh_pref_parent_def slist_find_None)
    with i have "\<not> nce_is_parent (?ns ! i)" by simp
    with i fl None show ?thesis by (simp add: cache1_def)
  next
    case (Some b)
    then have b: "b < ?n" "nce_is_parent (?ns ! b)"
      by (auto simp: rpl_neigh_pref_parent_def dest: slist_find_Some)
    show ?thesis
    proof (cases "i = b")
      case True
      with i fl len Some show ?thesis by (simp add: cache1_def)
    next
      case False
      with uniq [OF i b(1) _ b(2)] have "\<not> nce_is_parent (?ns ! i)" by blast
      with i fl False Some show ?thesis by (simp add: cache1_def)
    qed
  qed
  have c2_none: "\<not> nce_is_parent (cache2 ! i)" if "i < ?n" "p' = None" for i
    using that c1 by (simp add: cache2_def)
  have c2_some: "nce_is_parent (cache2 ! i) \<longleftrightarrow> i = a"
    if "i < ?n" "p' = Some a" "a < ?n" "admissible X ipv6 rl (?ns ! a)" for i a
  proof -
    from that(4) have "rpl (?ns ! a) \<noteq> None" by (rule admissible_rpl)
    with c1 [OF that(3)] have "rpl (cache1 ! a) \<noteq> None" by simp
    with that(1,2,3) c1 [OF that(1)] l1 show ?thesis
      by (cases "i = a") (simp_all add: cache2_def)
  qed
  have sw: "?K \<longrightarrow> (\<exists>a. a < ?n \<and> p' = Some a \<and> admissible X ipv6 rl (?ns ! a) \<and>
      rpl_mrhof_path_cost ipv6 (?ns ! a) = Some c' \<and> c' < ?m)"
  proof
    assume ?K
    then obtain k q where k: "k < ?n" "admissible X ipv6 rl (?ns ! k)"
      "rpl_mrhof_path_cost ipv6 (?ns ! k) = Some q" "q < ?m"
      by blast
    with mn have "c' \<le> q" by blast
    with k(4) s show "\<exists>a. a < ?n \<and> p' = Some a \<and> admissible X ipv6 rl (?ns ! a) \<and>
      rpl_mrhof_path_cost ipv6 (?ns ! a) = Some c' \<and> c' < ?m"
      by auto
  qed
  have nk: "\<not> (cur_cost < ?m \<and> float_add c' ?th > cur_cost)" if ?K
  proof
    assume k2: "cur_cost < ?m \<and> float_add c' ?th > cur_cost"
    from that obtain b cost_b k q where b: "?cur = Some b"
      "rpl_mrhof_path_cost ipv6 (?ns ! b) = Some cost_b"
      and k: "k < ?n" "admissible X ipv6 rl (?ns ! k)"
      "rpl_mrhof_path_cost ipv6 (?ns ! k) = Some q" "q + ?th \<le> cost_b"
      by blast
    from pref_parent_rpl(3) [OF b(1)] obtain rb where rb: "rpl (?ns ! b) = Some rb"
      by blast
    from cur_min_path_cost_parent [OF b(1) rb] cc k2 b(2) have cb: "cur_cost = cost_b"
      by (simp split: if_splits)
    with path_cost_rounded [OF b(2)] k2 have r: "float_round cost_b = cost_b"
      by auto
    from mn k(1,2,3) have "c' \<le> q" by blast
    with k(4) have "c' + ?th \<le> cost_b" by simp
    then have "float_round (c' + ?th) \<le> float_round cost_b"
      by (rule float_round_mono)
    with r cb k2 show False
      by (simp add: float_add_def)
  qed
  have cur_none: "cur_cost = ?m" if "?cur = None"
    using that cc by (simp add: cur_min_path_cost_def)
  consider (keep1) "p' = ?cur \<and> cur_cost < ?m"
    | (keep2) "\<not> (p' = ?cur \<and> cur_cost < ?m)" "cur_cost < ?m \<and> c' < ?m \<and> float_add c' ?th > cur_cost"
    | (switch) "\<not> (p' = ?cur \<and> cur_cost < ?m)" "\<not> (cur_cost < ?m \<and> c' < ?m \<and> float_add c' ?th > cur_cost)"
    by blast
  then show ?thesis
  proof cases
    case keep1
    then have r: "rpl_mrhof_select_parent X ipv6 = Some (?cur, ipv6\<lparr>neigh_cache := cache'\<rparr>)"
      unfolding e by simp
    have "?K \<longrightarrow> (\<exists>a c. ?cur = Some a \<and> a < ?n \<and> admissible X ipv6 rl (?ns ! a) \<and>
          rpl_mrhof_path_cost ipv6 (?ns ! a) = Some c \<and>
          (\<forall>j < ?n. admissible X ipv6 rl (?ns ! j) \<longrightarrow>
             (\<forall>q. rpl_mrhof_path_cost ipv6 (?ns ! j) = Some q \<longrightarrow> c \<le> q)) \<and>
          parent_count (ipv6\<lparr>neigh_cache := cache'\<rparr>) = 1 \<and>
          length (neigh_cache (ipv6\<lparr>neigh_cache := cache'\<rparr>)) = ?n \<and>
          (\<forall>i < ?n. nce_is_parent (neigh_cache (ipv6\<lparr>neigh_cache := cache'\<rparr>) ! i) \<longleftrightarrow> i = a))"
    proof
      assume ?K
      with sw obtain a where a: "a < ?n" "p' = Some a" "admissible X ipv6 rl (?ns ! a)"
        "rpl_mrhof_path_cost ipv6 (?ns ! a) = Some c'"
        by blast
      with keep1 have ca: "?cur = Some a" by simp
      then have pa: "nce_is_parent (?ns ! a)"
        by (auto simp: rpl_neigh_pref_parent_def dest: slist_find_Some)
      have ex: "\<forall>i < ?n. nce_is_parent (cache' ! i) \<longleftrightarrow> i = a"
        using fl pa uniq [OF _ a(1) _ pa] by blast
      then have "length (filter nce_is_parent cache') = 1"
        using count_one [of a cache' nce_is_parent] a(1) len by simp
      with ca a mn ex len show "\<exists>a c. ?cur = Some a \<and> a < ?n \<and> admissible X ipv6 rl (?ns ! a) \<and>
          rpl_mrhof_path_cost ipv6 (?ns ! a) = Some c \<and>
          (\<forall>j < ?n. admissible X ipv6 rl (?ns ! j) \<longrightarrow>
             (\<forall>q. rpl_mrhof_path_cost ipv6 (?ns ! j) = Some q \<longrightarrow> c \<le> q)) \<and>
          parent_count (ipv6\<lparr>neigh_cache := cache'\<rparr>) = 1 \<and>
          length (neigh_cache (ipv6\<lparr>neigh_cache := cache'\<rparr>)) = ?n \<and>
          (\<forall>i < ?n. nce_is_parent (neigh_cache (ipv6\<lparr>neigh_cache := cache'\<rparr>) ! i) \<longleftrightarrow> i = a)"
        by (intro exI [of _ a] exI [of _ c']) (simp add: parent_count_def)
    qed
    moreover have "parent_count (ipv6\<lparr>neigh_cache := cache'\<rparr>) \<le> 1"
      using cnt_keep assms(2) by simp
    ultimately show ?thesis
      using r by (intro exI conjI)
  next
    case keep2
    with cur_none obtain b where b: "?cur = Some b"
      by (cases ?cur) auto
    with keep2 have r: "rpl_mrhof_select_parent X ipv6 = Some (?cur, ipv6\<lparr>neigh_cache := cache'\<rparr>)"
      unfolding e by simp
    have "\<not> ?K"
      using nk keep2(2) by blast
    then have "?K \<longrightarrow> (\<exists>a c. ?cur = Some a \<and> a < ?n \<and> admissible X ipv6 rl (?ns ! a) \<and>
          rpl_mrhof_path_cost ipv6 (?ns ! a) = Some c \<and>
          (\<forall>j < ?n. admissible X ipv6 rl (?ns ! j) \<longrightarrow>
             (\<forall>q. rpl_mrhof_path_cost ipv6 (?ns ! j) = Some q \<longrightarrow> c \<le> q)) \<and>
          parent_count (ipv6\<lparr>neigh_cache := cache'\<rparr>) = 1 \<and>
          length (neigh_cache (ipv6\<lparr>neigh_cache := cache'\<rparr>)) = ?n \<and>
          (\<forall>i < ?n. nce_is_parent (neigh_cache (ipv6\<lparr>neigh_cache := cache'\<rparr>) ! i) \<longleftrightarrow> i = a))"
      by blast
    moreover have "parent_count (ipv6\<lparr>neigh_cache := cache'\<rparr>) \<le> 1"
      using cnt_keep assms(2) by simp
    ultimately show ?thesis
      using r by (intro exI conjI)
  next
    case switch
    have r: "rpl_mrhof_select_parent X ipv6 = Some (p', ipv6\<lparr>neigh_cache := cache2\<rparr>)"
      unfolding e
      by (simp only: if_not_P [OF switch(1)] if_not_P [OF switch(2)] cache2_def cache1_def Let_def)
    have cnt: "parent_count (ipv6\<lparr>neigh_cache := cache2\<rparr>) \<le> 1"
      using s
    proof
      assume "(c', p') = (?m, None)"
      then have "\<forall>i < length cache2. \<not> nce_is_parent (cache2 ! i)"
        using c2_none l2 by simp
      from count_none [OF this] show ?thesis by (simp add: parent_count_def)
    next
      assume "\<exists>a < ?n. p' = Some a \<and> admissible X ipv6 rl (?ns ! a) \<and>
          rpl_mrhof_path_cost ipv6 (?ns ! a) = Some c' \<and> c' < ?m"
      then obtain a where a: "a < ?n" "p' = Some a" "admissible X ipv6 rl (?ns ! a)"
        by blast
      then have "\<forall>i < length cache2. nce_is_parent (cache2 ! i) \<longleftrightarrow> i = a"
        using c2_some l2 by simp
      from count_one [OF _ this] a(1) l2 show ?thesis by (simp add: parent_count_def)
    qed
    have "?K \<longrightarrow> (\<exists>a c. p' = Some a \<and> a < ?n \<and> admissible X ipv6 rl (?ns ! a) \<and>
          rpl_mrhof_path_cost ipv6 (?ns ! a) = Some c \<and>
          (\<forall>j < ?n. admissible X ipv6 rl (?ns ! j) \<longrightarrow>
             (\<forall>q. rpl_mrhof_path_cost ipv6 (?ns ! j) = Some q \<longrightarrow> c \<le> q)) \<and>
          parent_count (ipv6\<lparr>neigh_cache := cache2\<rparr>) = 1 \<and>
          length (neigh_cache (ipv6\<lparr>neigh_cache := cache2\<rparr>)) = ?n \<and>
          (\<forall>i < ?n. nce_is_parent (neigh_cache (ipv6\<lparr>neigh_cache := cache2\<rparr>) ! i) \<longleftrightarrow> i = a))"
    proof
      assume ?K
      with sw obtain a where a: "a < ?n" "p' = Some a" "admissible X ipv6 rl (?ns ! a)"
        "rpl_mrhof_path_cost ipv6 (?ns ! a) = Some c'"
        by blast
      then have ex: "\<forall>i < ?n. nce_is_parent (cache2 ! i) \<longleftrightarrow> i = a"
        using c2_some by simp
      then have "length (filter nce_is_parent cache2) = 1"
        using count_one [of a cache2 nce_is_parent] a(1) l2 by simp
      with a mn ex l2 show "\<exists>a c. p' = Some a \<and> a < ?n \<and> admissible X ipv6 rl (?ns ! a) \<and>
          rpl_mrhof_path_cost ipv6 (?ns ! a) = Some c \<and>
          (\<forall>j < ?n. admissible X ipv6 rl (?ns ! j) \<longrightarrow>
             (\<forall>q. rpl_mrhof_path_cost ipv6 (?ns ! j) = Some q \<longrightarrow> c \<le> q)) \<and>
          parent_count (ipv6\<lparr>neigh_cache := cache2\<rparr>) = 1 \<and>
          length (neigh_cache (ipv6\<lparr>neigh_cache := cache2\<rparr>)) = ?n \<and>
          (\<forall>i < ?n. nce_is_parent (neigh_cache (ipv6\<lparr>neigh_cache := cache2\<rparr>) ! i) \<longleftrightarrow> i = a)"
        by (intro exI [of _ a] exI [of _ c']) (simp add: parent_count_def)
    qed
    with r cnt show ?thesis
      by (intro exI conjI)
  qed
qed

lemmas ex_select_defs = ex_mrhof_defs select_defined_def parent_count_def nce_is_parent_def
  select_rank_limit_def rpl_neigh_pref_parent_def rpl_mrhof_get_rank_limit_def rpl_dag_rank_def
  add16sat_def cur_min_path_cost_def admissible_def rpl_mrhof_select_parent_def set_is_parent_def
  ex_denied_def ex_zero_inc_def

text \<open>
  The claim C1 as stated fails for candidates whose path cost is not below
  \<^verbatim>\<open>max_path_cost\<close>: the parent has the path cost 40400, the other neighbor is admissible
  with 40128, lower by 272, which is more than the threshold of 192; the loop never
  selects a candidate at or above \<^verbatim>\<open>max_path_cost\<close> = 32768, so the function clears the
  parent's flag and returns \<^verbatim>\<open>NULL\<close>: no neighbor is flagged afterwards.
\<close>

theorem rpl_mrhof_select_parent_switch_counterexample:
  "select_defined ex_specs ex_ipv6_far \<and>
   parent_count ex_ipv6_far = 1 \<and>
   rpl_neigh_pref_parent ex_ipv6_far = Some 0 \<and>
   select_rank_limit ex_specs ex_ipv6_far = Some 0xFFFF \<and>
   rpl_mrhof_path_cost ex_ipv6_far (neigh_cache ex_ipv6_far ! 0) = Some 40400 \<and>
   admissible ex_specs ex_ipv6_far 0xFFFF (neigh_cache ex_ipv6_far ! 1) \<and>
   rpl_mrhof_path_cost ex_ipv6_far (neigh_cache ex_ipv6_far ! 1) = Some 40128 \<and>
   40128 + parent_switch_threshold (mrhof ex_ipv6_far) \<le> 40400 \<and>
   rpl_mrhof_select_parent ex_specs ex_ipv6_far
     = Some (None, ex_ipv6 (\<lambda>n. if n = 1 then Some 400 else Some 128)
                     [ex_nce 1 40000 False, ex_nce 2 40000 False]) \<and>
   parent_count (ex_ipv6 (\<lambda>n. if n = 1 then Some 400 else Some 128)
                     [ex_nce 1 40000 False, ex_nce 2 40000 False]) = 0"
  by (simp add: ex_ipv6_far_def ex_select_defs)

text \<open>
  A neighbor whose DIO carries a MinHopRankIncrease of zero makes \<^verbatim>\<open>rpl_mrhof_rank\<close>
  divide by zero: \<^verbatim>\<open>rpl_mrhof_check_candidate\<close> and \<^verbatim>\<open>rpl_mrhof_select_parent\<close> are
  undefined on it.
\<close>

lemma rpl_mrhof_rank_division_by_zero:
  "rpl_mrhof_check_candidate ex_specs ex_ipv6_zero (neigh_cache ex_ipv6_zero ! 0) 0xFFFF = None \<and>
   rpl_mrhof_select_parent ex_specs ex_ipv6_zero = None"
  by (simp add: ex_ipv6_zero_def ex_select_defs)

lemma float_round_ex_tie:
  "float_round (13107201 / 32768) = 13107201 / 32768"
  "float_round (19398657 / 32768) = 592"
proof -
  have u8: "float_ulp 8 = 1 / 32768" and u9: "float_ulp 9 = 1 / 16384"
    by (simp_all add: float_ulp_def powr_minus)
  have "float_round (13107201 / 32768) = of_int (rne (13107201 / 32768 / float_ulp 8)) * float_ulp 8"
    by (intro float_round_eq) simp_all
  also have "13107201 / 32768 / float_ulp 8 = of_int 13107201"
    by (simp add: u8)
  finally show "float_round (13107201 / 32768) = 13107201 / 32768"
    by (simp only: rne_of_int u8)
  have "float_round (19398657 / 32768) = of_int (rne (19398657 / 32768 / float_ulp 9)) * float_ulp 9"
    by (intro float_round_eq) simp_all
  also have "rne (19398657 / 32768 / float_ulp 9) = 9699328"
    by (simp add: u9 rne_def)
  finally show "float_round (19398657 / 32768) = 592"
    by (simp add: u9)
qed

text \<open>
  The claim C2 as stated fails in two ways. When the current parent is under a deny timer
  its path cost counts as \<^verbatim>\<open>max_path_cost\<close>: with the path costs 640 of the parent and 512
  of the only admissible candidate, 128 apart, the function switches to the candidate. And
  the comparison is made on the \<^verbatim>\<open>float\<close> sum: with the path cost 592 of the parent and
  \<open>400 + 2\<^sup>-\<^sup>1\<^sup>5\<close> of the best candidate, which is lower by less than 192, the sum of the
  candidate's cost and the threshold lies half-way between 592 and the next \<^verbatim>\<open>float\<close> and
  is rounded to 592, which is not greater than the parent's cost, and the function switches.
\<close>

theorem rpl_mrhof_select_parent_hysteresis_counterexample:
  "rpl_neigh_pref_parent ex_ipv6_denied = Some 0 \<and>
   select_rank_limit ex_specs ex_ipv6_denied = Some 0xFFFF \<and>
   rpl_mrhof_path_cost ex_ipv6_denied (neigh_cache ex_ipv6_denied ! 0) = Some 640 \<and>
   rpl_mrhof_path_cost ex_ipv6_denied (neigh_cache ex_ipv6_denied ! 1) = Some 512 \<and>
   \<not> admissible ex_specs ex_ipv6_denied 0xFFFF (neigh_cache ex_ipv6_denied ! 0) \<and>
   admissible ex_specs ex_ipv6_denied 0xFFFF (neigh_cache ex_ipv6_denied ! 1) \<and>
   (640 :: real) < max_path_cost (mrhof ex_ipv6_denied) \<and>
   640 - 512 < parent_switch_threshold (mrhof ex_ipv6_denied) \<and>
   rpl_mrhof_select_parent ex_specs ex_ipv6_denied
     = Some (Some 1, ex_ipv6 (\<lambda>n. if n = 1 then Some 384 else Some 256)
                       [ex_denied (ex_nce 1 256 False), ex_nce 2 256 True]) \<and>
   rpl_neigh_pref_parent ex_ipv6_tie = Some 0 \<and>
   select_rank_limit ex_specs ex_ipv6_tie = Some 0xFFFF \<and>
   rpl_mrhof_path_cost ex_ipv6_tie (neigh_cache ex_ipv6_tie ! 0) = Some 592 \<and>
   rpl_mrhof_path_cost ex_ipv6_tie (neigh_cache ex_ipv6_tie ! 1) = Some (13107201 / 32768) \<and>
   admissible ex_specs ex_ipv6_tie 0xFFFF (neigh_cache ex_ipv6_tie ! 0) \<and>
   admissible ex_specs ex_ipv6_tie 0xFFFF (neigh_cache ex_ipv6_tie ! 1) \<and>
   (592 :: real) < max_path_cost (mrhof ex_ipv6_tie) \<and>
   (592 :: real) - 13107201 / 32768 < parent_switch_threshold (mrhof ex_ipv6_tie) \<and>
   rpl_mrhof_select_parent ex_specs ex_ipv6_tie
     = Some (Some 1, ex_ipv6 (\<lambda>n. if n = 1 then Some 336 else Some (200 + 1 / 32768))
                       [ex_nce 1 256 False, ex_nce 2 200 True])"
  by (simp add: ex_ipv6_denied_def ex_ipv6_tie_def ex_select_defs float_round_ex_tie)

lemma ex_keep_eval:
  "select_defined ex_specs ex_ipv6_keep"
  "rpl_neigh_pref_parent ex_ipv6_keep = Some 0"
  "rpl (neigh_cache ex_ipv6_keep ! 0) = Some \<lparr>dio_rank = 256, config_min_hop_rank_inc = 128,
      config_max_rank_inc = 0, is_parent = True, rsl_valid = True, deny_timer = None\<rparr>"
  "rpl_mrhof_path_cost ex_ipv6_keep (neigh_cache ex_ipv6_keep ! 0) = Some 640"
  "select_rank_limit ex_specs ex_ipv6_keep = Some 0xFFFF"
  "length (neigh_cache ex_ipv6_keep) = 2"
  "admissible ex_specs ex_ipv6_keep 0xFFFF (neigh_cache ex_ipv6_keep ! 1)"
  "rpl_mrhof_path_cost ex_ipv6_keep (neigh_cache ex_ipv6_keep ! 1) = Some 512"
  "max_path_cost (mrhof ex_ipv6_keep) = 32768"
  "parent_switch_threshold (mrhof ex_ipv6_keep) = 192"
  "nce_is_parent (neigh_cache ex_ipv6_keep ! 0)"
  "\<not> nce_is_parent (neigh_cache ex_ipv6_keep ! 1)"
  by (simp_all add: ex_ipv6_keep_def ex_select_defs)

theorem rpl_mrhof_select_parent_hysteresis_witness:
  "select_defined ex_specs ex_ipv6_keep \<and>
   rpl_neigh_pref_parent ex_ipv6_keep = Some 0 \<and>
   rpl_mrhof_path_cost ex_ipv6_keep (neigh_cache ex_ipv6_keep ! 0) = Some 640 \<and>
   admissible ex_specs ex_ipv6_keep 0xFFFF (neigh_cache ex_ipv6_keep ! 1) \<and>
   rpl_mrhof_path_cost ex_ipv6_keep (neigh_cache ex_ipv6_keep ! 1) = Some 512 \<and>
   float_add 512 (parent_switch_threshold (mrhof ex_ipv6_keep)) = 704 \<and>
   (\<exists>ipv6'. rpl_mrhof_select_parent ex_specs ex_ipv6_keep = Some (Some 0, ipv6') \<and>
      nce_is_parent (neigh_cache ipv6' ! 0) \<and> \<not> nce_is_parent (neigh_cache ipv6' ! 1))"
proof -
  note e = ex_keep_eval
  have a: "1 < length (neigh_cache ex_ipv6_keep)"
    by (simp add: e)
  have m: "\<forall>j < length (neigh_cache ex_ipv6_keep).
      admissible ex_specs ex_ipv6_keep 0xFFFF (neigh_cache ex_ipv6_keep ! j) \<longrightarrow>
      (\<forall>q. rpl_mrhof_path_cost ex_ipv6_keep (neigh_cache ex_ipv6_keep ! j) = Some q \<longrightarrow> 512 \<le> q)"
    by (auto simp: e e [unfolded One_nat_def] less_Suc_eq numeral_2_eq_2)
  have t: "timer_stopped (deny_timer \<lparr>dio_rank = 256, config_min_hop_rank_inc = 128,
      config_max_rank_inc = 0, is_parent = True, rsl_valid = True, deny_timer = None\<rparr>)"
    by (simp add: timer_stopped_def)
  have f': "float_add 512 192 = 704"
    by (simp add: float_add_def float_round_numeral)
  have f: "float_add 512 (parent_switch_threshold (mrhof ex_ipv6_keep)) = 704"
    by (simp add: e f')
  from rpl_mrhof_select_parent_hysteresis [OF e(1) e(2) e(3) t e(4) e(5) a e(7) e(8) m]
  obtain ipv6' where r: "rpl_mrhof_select_parent ex_specs ex_ipv6_keep = Some (Some 0, ipv6')"
    and fl: "\<forall>i < length (neigh_cache ex_ipv6_keep).
         nce_is_parent (neigh_cache ipv6' ! i) = nce_is_parent (neigh_cache ex_ipv6_keep ! i)"
    by (auto simp: e f')
  have "0 < length (neigh_cache ex_ipv6_keep)"
    by (simp add: e)
  with fl a e(11,12) have "nce_is_parent (neigh_cache ipv6' ! 0)" "\<not> nce_is_parent (neigh_cache ipv6' ! 1)"
    by blast+
  with r e f show ?thesis by blast
qed

lemma ex_switch_eval:
  "select_defined ex_specs ex_ipv6_switch"
  "parent_count ex_ipv6_switch \<le> 1"
  "select_rank_limit ex_specs ex_ipv6_switch = Some 0xFFFF"
  "rpl_neigh_pref_parent ex_ipv6_switch = Some 0"
  "length (neigh_cache ex_ipv6_switch) = 2"
  "admissible ex_specs ex_ipv6_switch 0xFFFF (neigh_cache ex_ipv6_switch ! 1)"
  "rpl_mrhof_path_cost ex_ipv6_switch (neigh_cache ex_ipv6_switch ! 1) = Some 384"
  "rpl_mrhof_path_cost ex_ipv6_switch (neigh_cache ex_ipv6_switch ! 0) = Some 756"
  "max_path_cost (mrhof ex_ipv6_switch) = 32768"
  "parent_switch_threshold (mrhof ex_ipv6_switch) = 192"
  by (simp_all add: ex_ipv6_switch_def ex_select_defs)

theorem rpl_mrhof_select_parent_switch_witness:
  "select_defined ex_specs ex_ipv6_switch \<and>
   parent_count ex_ipv6_switch \<le> 1 \<and>
   rpl_neigh_pref_parent ex_ipv6_switch = Some 0 \<and>
   rpl_mrhof_path_cost ex_ipv6_switch (neigh_cache ex_ipv6_switch ! 0) = Some 756 \<and>
   admissible ex_specs ex_ipv6_switch 0xFFFF (neigh_cache ex_ipv6_switch ! 1) \<and>
   rpl_mrhof_path_cost ex_ipv6_switch (neigh_cache ex_ipv6_switch ! 1) = Some 384 \<and>
   (\<exists>ipv6'. rpl_mrhof_select_parent ex_specs ex_ipv6_switch = Some (Some 1, ipv6') \<and>
      parent_count ipv6' = 1 \<and>
      \<not> nce_is_parent (neigh_cache ipv6' ! 0) \<and> nce_is_parent (neigh_cache ipv6' ! 1))"
proof -
  note e = ex_switch_eval
  let ?ns = "neigh_cache ex_ipv6_switch"
  have k: "\<exists>b cost_b. rpl_neigh_pref_parent ex_ipv6_switch = Some b \<and>
          rpl_mrhof_path_cost ex_ipv6_switch (?ns ! b) = Some cost_b \<and>
          (\<exists>k < length ?ns. \<exists>q.
             admissible ex_specs ex_ipv6_switch 0xFFFF (?ns ! k) \<and>
             rpl_mrhof_path_cost ex_ipv6_switch (?ns ! k) = Some q \<and>
             q < max_path_cost (mrhof ex_ipv6_switch) \<and>
             q + parent_switch_threshold (mrhof ex_ipv6_switch) \<le> cost_b)"
  proof (intro exI conjI)
    show "rpl_neigh_pref_parent ex_ipv6_switch = Some 0" by (rule e)
    show "rpl_mrhof_path_cost ex_ipv6_switch (?ns ! 0) = Some 756" by (rule e)
    show "1 < length ?ns" by (simp add: e)
    show "admissible ex_specs ex_ipv6_switch 0xFFFF (?ns ! 1)" by (rule e)
    show "rpl_mrhof_path_cost ex_ipv6_switch (?ns ! 1) = Some 384" by (rule e)
    show "(384 :: real) < max_path_cost (mrhof ex_ipv6_switch)" by (simp add: e)
    show "(384 :: real) + parent_switch_threshold (mrhof ex_ipv6_switch) \<le> 756" by (simp add: e)
  qed
  from rpl_mrhof_select_parent_switch [OF e(1) e(2) e(3)] k
  obtain ipv6' a c where r: "rpl_mrhof_select_parent ex_specs ex_ipv6_switch = Some (Some a, ipv6')"
    and a: "a < length ?ns" "rpl_mrhof_path_cost ex_ipv6_switch (?ns ! a) = Some c"
    and m: "\<forall>j < length ?ns. admissible ex_specs ex_ipv6_switch 0xFFFF (?ns ! j) \<longrightarrow>
             (\<forall>q. rpl_mrhof_path_cost ex_ipv6_switch (?ns ! j) = Some q \<longrightarrow> c \<le> q)"
    and p: "parent_count ipv6' = 1"
      "\<forall>i < length ?ns. nce_is_parent (neigh_cache ipv6' ! i) \<longleftrightarrow> i = a"
    by blast
  have "1 < length ?ns" by (simp add: e)
  with m e(6,7) have "c \<le> 384" by blast
  have "a \<noteq> 0"
  proof
    assume "a = 0"
    with a(2) e(8) have "c = 756" by simp
    with \<open>c \<le> 384\<close> show False by simp
  qed
  with a(1) have "a = 1" by (simp add: e)
  with r p e show ?thesis by simp
qed

text \<open>
  \<open>neigh_defined\<close> holds exactly of the neighbors with RPL data on which
  \<^verbatim>\<open>rpl_mrhof_check_candidate\<close> returns.
\<close>

lemma check_candidate_returns:
  assumes "rpl nce = Some r"
  shows "neigh_defined X ipv6 nce \<longleftrightarrow> rpl_mrhof_check_candidate X ipv6 nce rank_limit \<noteq> None"
proof
  assume "neigh_defined X ipv6 nce"
  from check_candidate_result [OF assms this, of rank_limit] show "rpl_mrhof_check_candidate X ipv6 nce rank_limit \<noteq> None"
    by auto
next
  assume a: "rpl_mrhof_check_candidate X ipv6 nce rank_limit \<noteq> None"
  then obtain nr where n: "rpl_mrhof_rank X ipv6 (Some nce) = Some nr"
    by (auto simp: rpl_mrhof_check_candidate_def assms split: Option.bind_splits)
  show "neigh_defined X ipv6 nce"
  proof (cases "rpl_mrhof_etx ipv6 nce")
    case None
    with n show ?thesis by (simp add: neigh_defined_def)
  next
    case (Some e)
    with a n have "rpl_mrhof_candidate_rsl_is_valid X ipv6 nce \<noteq> None"
      by (auto simp: rpl_mrhof_check_candidate_def assms split: Option.bind_splits)
    with n show ?thesis by (simp add: neigh_defined_def)
  qed
qed

lemma select_loop_undefined:
  "\<not> list_all (neigh_defined X ipv6) ns \<Longrightarrow> rpl_mrhof_select_loop X ipv6 rl i ns st = None"
proof (induction ns arbitrary: i st)
  case Nil
  then show ?case by simp
next
  case (Cons nce rest)
  show ?case
  proof (cases "neigh_defined X ipv6 nce")
    case True
    with Cons.prems have "\<not> list_all (neigh_defined X ipv6) rest" by simp
    then have r: "\<And>i st. rpl_mrhof_select_loop X ipv6 rl i rest st = None"
      by (rule Cons.IH)
    show ?thesis
      by (simp add: r Let_def split: option.split Option.bind_split prod.split)
  next
    case False
    then obtain r where r: "rpl nce = Some r"
      by (auto simp: neigh_defined_def)
    from False check_candidate_returns [OF r, of X ipv6 rl]
    have "rpl_mrhof_check_candidate X ipv6 nce rl = None"
      by blast
    then show ?thesis
      by (simp add: r split: Option.bind_split)
  qed
qed

text \<open>
  \<open>select_defined\<close> holds exactly of the contexts on which \<^verbatim>\<open>rpl_mrhof_select_parent\<close>
  returns.
\<close>

lemma select_parent_returns:
  "select_defined X ipv6 \<longleftrightarrow> rpl_mrhof_select_parent X ipv6 \<noteq> None"
proof
  assume d: "select_defined X ipv6"
  then obtain rl where rl: "select_rank_limit X ipv6 = Some rl"
    by (auto simp: select_defined_def)
  obtain cc where cc: "cur_min_path_cost ipv6 = Some cc"
    using cur_min_path_cost_defined by blast
  have n: "rpl_neigh_pref_parent ipv6 = None \<Longrightarrow> cc = max_path_cost (mrhof ipv6)"
    using cc by (simp add: cur_min_path_cost_def)
  from select_parent_run [OF d rl cc] n show "rpl_mrhof_select_parent X ipv6 \<noteq> None"
    by (cases "rpl_neigh_pref_parent ipv6") (auto split: if_splits)
next
  show "select_defined X ipv6" if r: "rpl_mrhof_select_parent X ipv6 \<noteq> None"
  proof (rule ccontr)
    assume n: "\<not> select_defined X ipv6"
    have "rpl_mrhof_select_parent X ipv6 = None"
    proof (cases "select_rank_limit X ipv6")
      case None
      then show ?thesis
        by (simp add: rpl_mrhof_select_parent_def split: Option.bind_split)
    next
      case (Some rl)
      with n have "\<not> list_all (neigh_defined X ipv6) (neigh_cache ipv6)"
        by (simp add: select_defined_def)
      then have "\<And>st. rpl_mrhof_select_loop X ipv6 rl 0 (neigh_cache ipv6) st = None"
        by (rule select_loop_undefined)
      with Some show ?thesis
        by (simp add: rpl_mrhof_select_parent_def split: Option.bind_split)
    qed
    with r show False by simp
  qed
qed

end
